theory Spec2Isabelle
  imports Main
begin

section \<open>Data model\<close>

text \<open>
  A participant is the object \<^verbatim>\<open>{ id, name }\<close> of the participant list. A prize tier is
  the object \<^verbatim>\<open>{ id, name, name_vi, quantity }\<close> of the prize list; a queue slot is the tier
  spread into a new object together with \<^verbatim>\<open>instance\<close>, and a winner is the participant spread
  into a new object together with the \<^verbatim>\<open>prize\<close> snapshot and the \<^verbatim>\<open>timestamp\<close>; both are
  record extensions, so that \<open>p_id\<close> and \<open>prize_id\<close> read either shape as \<^verbatim>\<open>.id\<close> does.
  Field names carry a prefix where two objects share a name (\<^verbatim>\<open>id\<close>, \<^verbatim>\<open>name\<close>).
\<close>

record participant =
  p_id :: string
  p_name :: string

record prize_tier =
  prize_id :: int
  prize_name :: string
  name_vi :: string
  quantity :: int

record slot = prize_tier +
  instance_no :: int

record winner = participant +
  prize :: slot
  timestamp :: nat

datatype STATE = READY | SPINNING | STOPPED | COMPLETE

datatype error = TypeError | Error

text \<open>
  The only listener the repository ever installs with \<^verbatim>\<open>setOnStateChange\<close> is the closure
  of \<^verbatim>\<open>LotteryApp.initComponents\<close> (save, refresh the selector, auto-select).
\<close>

datatype callback = AutoSave

text \<open>
  The objects \<^verbatim>\<open>SlotMachine\<close>, \<^verbatim>\<open>PrizeManager\<close>, \<^verbatim>\<open>WinnerManager\<close>, \<^verbatim>\<open>DrawManager\<close>
  and \<^verbatim>\<open>LotteryApp\<close> reference one another and are mutated in place; the model passes one
  record holding the fields of all five. \<open>animationFrames\<close> counts the \<^verbatim>\<open>checkStop\<close> callbacks
  queued with \<^verbatim>\<open>requestAnimationFrame\<close>, \<open>revealTimers\<close> the final callbacks queued by
  \<^verbatim>\<open>finishSpin\<close> (the staggered reel timers before it only touch the page); \<open>winnerNameEl\<close>
  and \<open>actionButtons\<close> say whether the page has these elements. The container of the
  reels is taken to be on the page: without it no spin is ever reported.
\<close>

record lottery =
  participants :: "participant list"
  isSpinning :: bool
  stopRequested :: bool
  sm_pendingWinner :: "participant option"
  currentWinner :: "participant option"
  animationFrames :: nat
  revealTimers :: nat
  winnerNameEl :: bool
  originalPrizes :: "prize_tier list"
  prizeQueue :: "slot list"
  currentIndex :: nat
  winners :: "winner list"
  state :: STATE
  pendingWinner :: "participant option"
  actionButtons :: bool
  onStateChange :: "callback option"
  app_originalParticipants :: "participant list"
  app_originalPrizes :: "prize_tier list"

text \<open>
  What a handler leaves behind: it returns, or an exception leaves it with the state as
  mutated up to the throw.
\<close>

datatype outcome = Returns lottery | Throws error lottery

fun after :: "outcome \<Rightarrow> lottery" where
  "after (Returns s) = s"
| "after (Throws e s) = s"

section \<open>Array helpers\<close>

fun findIndex :: "('a \<Rightarrow> bool) \<Rightarrow> 'a list \<Rightarrow> nat option" where
  "findIndex P [] = None"
| "findIndex P (x # xs) = (if P x then Some 0 else map_option Suc (findIndex P xs))"

text \<open>\<^verbatim>\<open>xs.splice(index, 1)\<close>\<close>

definition splice1 :: "nat \<Rightarrow> 'a list \<Rightarrow> 'a list" where
  "splice1 index xs = take index xs @ drop (Suc index) xs"

section \<open>PrizeManager\<close>

definition slot_of :: "prize_tier \<Rightarrow> int \<Rightarrow> slot" where
  "slot_of p i = \<lparr>prize_id = prize_id p, prize_name = prize_name p, name_vi = name_vi p,
     quantity = quantity p, instance_no = i\<rparr>"

text \<open>The inner loop of \<^verbatim>\<open>buildPrizeQueue\<close>: \<^verbatim>\<open>for (let i = 0; i < prize.quantity; i++)\<close>.\<close>

function expand :: "prize_tier \<Rightarrow> int \<Rightarrow> slot list \<Rightarrow> slot list" where
  "expand p i queue = (if i < quantity p then expand p (i + 1) (queue @ [slot_of p (i + 1)]) else queue)"
  by pat_completeness auto
termination
  by (relation "measure (\<lambda>(p, i, queue). nat (quantity p - i))") auto

declare expand.simps [simp del]

text \<open>\<^verbatim>\<open>[...prizes].sort((a, b) => b.id - a.id)\<close>: a stable sort, id descending.\<close>

definition sortDescending :: "prize_tier list \<Rightarrow> prize_tier list" where
  "sortDescending prizes = sort_key (\<lambda>p. - prize_id p) prizes"

definition buildPrizeQueue :: "prize_tier list \<Rightarrow> slot list" where
  "buildPrizeQueue prizes = fold (\<lambda>p queue. expand p 0 queue) (sortDescending prizes) []"

definition setPrizes :: "prize_tier list \<Rightarrow> lottery \<Rightarrow> lottery" where
  "setPrizes prizes s =
     s\<lparr>originalPrizes := prizes, prizeQueue := buildPrizeQueue prizes, currentIndex := 0\<rparr>"

definition getCurrentPrize :: "lottery \<Rightarrow> slot option" where
  "getCurrentPrize s =
     (if currentIndex s \<ge> length (prizeQueue s) then None
      else Some (prizeQueue s ! currentIndex s))"

definition advanceToNextPrize :: "lottery \<Rightarrow> lottery" where
  "advanceToNextPrize s =
     (if currentIndex s < length (prizeQueue s) then s\<lparr>currentIndex := currentIndex s + 1\<rparr>
      else s)"

definition undoLastPrize :: "lottery \<Rightarrow> lottery" where
  "undoLastPrize s =
     (if currentIndex s > 0 then s\<lparr>currentIndex := currentIndex s - 1\<rparr> else s)"

definition getTotalPrizes :: "lottery \<Rightarrow> nat" where
  "getTotalPrizes s = length (prizeQueue s)"

definition pm_reset :: "lottery \<Rightarrow> lottery" where
  "pm_reset s = s\<lparr>currentIndex := 0\<rparr>"

section \<open>WinnerManager\<close>

text \<open>
  \<^verbatim>\<open>addWinner(participant, prize)\<close> reads \<^verbatim>\<open>prize.id\<close> while it builds the entry, before
  the push: on \<^verbatim>\<open>null\<close> the read throws and nothing has been written. \<open>now\<close> is
  \<^verbatim>\<open>Date.now()\<close>.
\<close>

definition winnerEntry :: "participant \<Rightarrow> slot \<Rightarrow> nat \<Rightarrow> winner" where
  "winnerEntry p pr now =
     \<lparr>p_id = p_id p, p_name = p_name p,
      prize = \<lparr>prize_id = prize_id pr, prize_name = prize_name pr, name_vi = name_vi pr,
               quantity = quantity pr, instance_no = instance_no pr\<rparr>,
      timestamp = now\<rparr>"

definition addWinner :: "participant \<Rightarrow> slot option \<Rightarrow> nat \<Rightarrow> lottery \<Rightarrow> outcome" where
  "addWinner p prize_opt now s =
     (case prize_opt of
        None \<Rightarrow> Throws TypeError s
      | Some pr \<Rightarrow> Returns (s\<lparr>winners := winners s @ [winnerEntry p pr now]\<rparr>))"


definition removeLastWinner :: "lottery \<Rightarrow> winner option \<times> lottery" where
  "removeLastWinner s =
     (if winners s = [] then (None, s)
      else (Some (last (winners s)), s\<lparr>winners := butlast (winners s)\<rparr>))"

definition removeWinnerById :: "string \<Rightarrow> lottery \<Rightarrow> winner option \<times> lottery" where
  "removeWinnerById participantId s =
     (case findIndex (\<lambda>w. p_id w = participantId) (winners s) of
        None \<Rightarrow> (None, s)
      | Some index \<Rightarrow> (Some (winners s ! index), s\<lparr>winners := splice1 index (winners s)\<rparr>))"

definition getWinnersByPrize :: "int \<Rightarrow> lottery \<Rightarrow> winner list" where
  "getWinnersByPrize prizeId s = filter (\<lambda>w. prize_id (prize w) = prizeId) (winners s)"

definition wm_reset :: "lottery \<Rightarrow> lottery" where
  "wm_reset s = s\<lparr>winners := []\<rparr>"

section \<open>SlotMachine\<close>

definition setParticipants :: "participant list \<Rightarrow> lottery \<Rightarrow> lottery" where
  "setParticipants ps s = s\<lparr>participants := ps\<rparr>"

definition hasParticipants :: "lottery \<Rightarrow> bool" where
  "hasParticipants s = (length (participants s) > 0)"

definition sm_startSpin :: "lottery \<Rightarrow> bool \<times> lottery" where
  "sm_startSpin s =
     (if isSpinning s \<or> length (participants s) = 0 then (False, s)
      else (True, s\<lparr>isSpinning := True, stopRequested := False, sm_pendingWinner := None,
                    animationFrames := animationFrames s + 1\<rparr>))"

text \<open>
  \<^verbatim>\<open>stop()\<close>: \<open>r\<close> is the random draw; \<^verbatim>\<open>Math.floor(Math.random() * n)\<close> ranges over
  \<open>0..n-1\<close> and is \<open>0\<close> for an empty pool, where the read yields \<^verbatim>\<open>undefined\<close>.
\<close>

definition sm_stop :: "nat \<Rightarrow> lottery \<Rightarrow> participant option \<times> lottery" where
  "sm_stop r s =
     (if isSpinning s \<and> \<not> stopRequested s then
        (let n = length (participants s);
             picked = (if n = 0 then None else Some (participants s ! (r mod n)))
         in (picked, s\<lparr>stopRequested := True, sm_pendingWinner := picked\<rparr>))
      else (None, s))"

definition finishSpin :: "lottery \<Rightarrow> lottery" where
  "finishSpin s =
     (case sm_pendingWinner s of
        None \<Rightarrow> s
      | Some w \<Rightarrow> s\<lparr>revealTimers := revealTimers s + 1\<rparr>)"

text \<open>One queued \<^verbatim>\<open>checkStop\<close> callback runs: it finishes the spin or queues itself again.\<close>

definition checkStop :: "lottery \<Rightarrow> lottery" where
  "checkStop s =
     (if animationFrames s = 0 then s
      else (let s1 = s\<lparr>animationFrames := animationFrames s - 1\<rparr>
            in if stopRequested s1 then finishSpin s1
               else s1\<lparr>animationFrames := animationFrames s1 + 1\<rparr>))"

definition removeParticipant :: "string \<Rightarrow> lottery \<Rightarrow> bool \<times> lottery" where
  "removeParticipant ident s =
     (case findIndex (\<lambda>p. p_id p = ident) (participants s) of
        None \<Rightarrow> (False, s)
      | Some index \<Rightarrow> (True, s\<lparr>participants := splice1 index (participants s)\<rparr>))"

definition addParticipant :: "participant \<Rightarrow> lottery \<Rightarrow> bool \<times> lottery" where
  "addParticipant p s =
     (if list_ex (\<lambda>q. p_id q = p_id p) (participants s) then (False, s)
      else (True, s\<lparr>participants := participants s @ [p]\<rparr>))"

definition clearPendingWinner :: "lottery \<Rightarrow> lottery" where
  "clearPendingWinner s = s\<lparr>sm_pendingWinner := None\<rparr>"

text \<open>
  \<^verbatim>\<open>SlotMachine.reset()\<close> cancels the animation frame it last requested (one queued
  \<^verbatim>\<open>checkStop\<close> callback fewer, if one is queued); the timers queued by \<^verbatim>\<open>finishSpin\<close>
  are not cancelled.
\<close>

definition sm_reset :: "lottery \<Rightarrow> lottery" where
  "sm_reset s =
     s\<lparr>animationFrames := animationFrames s - 1, isSpinning := False, stopRequested := False,
       sm_pendingWinner := None, currentWinner := None\<rparr>"

section \<open>DrawManager: display refresh\<close>

text \<open>
  Of \<^verbatim>\<open>updateUI\<close> only \<^verbatim>\<open>updateButtons\<close> writes a field: it stores \<^verbatim>\<open>COMPLETE\<close> when the
  ledger has reached the queue length or the pool is empty.
\<close>

definition updateButtons :: "lottery \<Rightarrow> lottery" where
  "updateButtons s =
     (if actionButtons s then
        (let totalPrizes = getTotalPrizes s;
             awardedCount = length (winners s);
             isComplete = (awardedCount \<ge> totalPrizes)
         in if isComplete \<or> length (participants s) = 0 then s\<lparr>state := COMPLETE\<rparr> else s)
      else s)"

definition updateUI :: "lottery \<Rightarrow> lottery" where
  "updateUI s = updateButtons s"

section \<open>LotteryApp: prize selection\<close>

text \<open>
  The callback of \<^verbatim>\<open>queue.findIndex\<close> in \<^verbatim>\<open>selectPrize\<close> counts the slots of the tier it
  has seen in \<open>count\<close> and stops at the slot that makes the count \<open>target\<close>.
\<close>

fun findOccurrence :: "int \<Rightarrow> nat \<Rightarrow> nat \<Rightarrow> slot list \<Rightarrow> nat option" where
  "findOccurrence prizeId target count [] = None"
| "findOccurrence prizeId target count (p # queue) =
     (if prize_id p = prizeId then
        (if count + 1 = target then Some 0
         else map_option Suc (findOccurrence prizeId target (count + 1) queue))
      else map_option Suc (findOccurrence prizeId target count queue))"

definition selectPrize :: "int \<Rightarrow> lottery \<Rightarrow> lottery" where
  "selectPrize prizeId s =
     (case find (\<lambda>p. prize_id p = prizeId) (app_originalPrizes s) of
        None \<Rightarrow> s
      | Some pr \<Rightarrow>
          (let awarded = length (getWinnersByPrize prizeId s)
           in if int awarded \<ge> quantity pr then s
              else (case findOccurrence prizeId (awarded + 1) 0 (prizeQueue s) of
                      None \<Rightarrow> s
                    | Some index \<Rightarrow> updateUI (s\<lparr>currentIndex := index\<rparr>))))"

text \<open>Whether the tier of the current slot still has instances to award, by count.\<close>

definition currentHasRemaining :: "lottery \<Rightarrow> bool" where
  "currentHasRemaining s =
     (case getCurrentPrize s of
        None \<Rightarrow> False
      | Some currentPrize \<Rightarrow>
          (case find (\<lambda>p. prize_id p = prize_id currentPrize) (app_originalPrizes s) of
             None \<Rightarrow> False
           | Some pr \<Rightarrow>
               int (length (getWinnersByPrize (prize_id currentPrize) s)) < quantity pr))"

definition autoSelectNextAvailablePrize :: "lottery \<Rightarrow> lottery" where
  "autoSelectNextAvailablePrize s =
     (if currentHasRemaining s then s
      else (case find (\<lambda>pr. int (length (getWinnersByPrize (prize_id pr) s)) < quantity pr)
                   (sortDescending (app_originalPrizes s)) of
              None \<Rightarrow> s
            | Some pr \<Rightarrow> selectPrize (prize_id pr) s))"

text \<open>\<^verbatim>\<open>if (this.onStateChange) this.onStateChange()\<close>\<close>

fun runCallback :: "callback \<Rightarrow> lottery \<Rightarrow> lottery" where
  "runCallback AutoSave s = autoSelectNextAvailablePrize s"

definition notify :: "lottery \<Rightarrow> lottery" where
  "notify s = (case onStateChange s of None \<Rightarrow> s | Some cb \<Rightarrow> runCallback cb s)"

section \<open>DrawManager\<close>

definition startSpin :: "lottery \<Rightarrow> lottery" where
  "startSpin s =
     (if state s = READY then
        (if length (winners s) \<ge> getTotalPrizes s then s
         else if hasParticipants s then
           (case sm_startSpin s of
              (True, s1) \<Rightarrow> updateButtons (s1\<lparr>state := SPINNING\<rparr>)
            | (False, s1) \<Rightarrow> s1)
         else s)
      else s)"

definition stopSpin :: "nat \<Rightarrow> lottery \<Rightarrow> lottery" where
  "stopSpin r s = (if state s = SPINNING then snd (sm_stop r s) else s)"

definition onSpinComplete :: "participant option \<Rightarrow> lottery \<Rightarrow> lottery" where
  "onSpinComplete w s =
     (case w of
        None \<Rightarrow> s
      | Some p \<Rightarrow> updateButtons (s\<lparr>pendingWinner := Some p, state := STOPPED\<rparr>))"

text \<open>
  The final callback of \<^verbatim>\<open>finishSpin\<close>: it reads \<^verbatim>\<open>this.pendingWinner\<close> when it fires,
  writes its name to the page if the element is there (a \<^verbatim>\<open>TypeError\<close> on \<^verbatim>\<open>null\<close>) and
  dispatches \<^verbatim>\<open>spinComplete\<close>, which the draw manager receives in \<^verbatim>\<open>onSpinComplete\<close>.
\<close>

definition revealTimer :: "lottery \<Rightarrow> outcome" where
  "revealTimer s =
     (if revealTimers s = 0 then Returns s
      else (let s1 = s\<lparr>revealTimers := revealTimers s - 1, isSpinning := False,
                       currentWinner := sm_pendingWinner s\<rparr>
            in if winnerNameEl s1 \<and> sm_pendingWinner s1 = None then Throws TypeError s1
               else Returns (onSpinComplete (sm_pendingWinner s1) s1)))"

definition confirmWinner :: "nat \<Rightarrow> lottery \<Rightarrow> outcome" where
  "confirmWinner now s =
     (case pendingWinner s of
        None \<Rightarrow> Returns s
      | Some w \<Rightarrow>
          (if state s = STOPPED then
             (case addWinner w (getCurrentPrize s) now s of
                Throws e s1 \<Rightarrow> Throws e s1
              | Returns s1 \<Rightarrow>
                  (let s2 = snd (removeParticipant (p_id w) s1);
                       s3 = advanceToNextPrize s2;
                       s4 = clearPendingWinner (s3\<lparr>pendingWinner := None\<rparr>);
                       s5 = updateUI (s4\<lparr>state := READY\<rparr>)
                   in Returns (notify s5)))
           else Returns s))"

definition respin :: "lottery \<Rightarrow> lottery" where
  "respin s =
     (if state s = STOPPED then
        updateButtons ((sm_reset (clearPendingWinner (s\<lparr>pendingWinner := None\<rparr>)))\<lparr>state := READY\<rparr>)
      else s)"

text \<open>The object \<^verbatim>\<open>{ id: winner.id, name: winner.name }\<close> that goes back to the pool.\<close>

definition asParticipant :: "winner \<Rightarrow> participant" where
  "asParticipant w = \<lparr>p_id = p_id w, p_name = p_name w\<rparr>"

definition undoLastDraw :: "lottery \<Rightarrow> winner option \<times> lottery" where
  "undoLastDraw s =
     (case removeLastWinner s of
        (None, s1) \<Rightarrow> (None, s1)
      | (Some lastWinner, s1) \<Rightarrow>
          (let s2 = undoLastPrize s1;
               s3 = snd (addParticipant (asParticipant lastWinner) s2);
               s4 = notify s3
           in (Some lastWinner, updateUI (s4\<lparr>state := READY\<rparr>))))"

definition readdWinner :: "string \<Rightarrow> lottery \<Rightarrow> winner option \<times> lottery" where
  "readdWinner participantId s =
     (case removeWinnerById participantId s of
        (None, s1) \<Rightarrow> (None, s1)
      | (Some w, s1) \<Rightarrow>
          (Some w, notify (snd (addParticipant (asParticipant w) s1))))"

definition canDraw :: "lottery \<Rightarrow> bool" where
  "canDraw s =
     (let totalPrizes = getTotalPrizes s;
          awardedCount = length (winners s);
          isComplete = (awardedCount \<ge> totalPrizes)
      in state s = READY \<and> \<not> isComplete \<and> hasParticipants s)"

definition reset :: "participant list \<Rightarrow> lottery \<Rightarrow> lottery" where
  "reset originalParticipants s =
     (let s1 = sm_reset (setParticipants originalParticipants (wm_reset (pm_reset s)));
          s2 = updateUI (s1\<lparr>pendingWinner := None, state := READY\<rparr>)
      in notify s2)"

section \<open>Events\<close>

text \<open>
  The facilitator's commands and the two kinds of queued callbacks, one event each. The
  state after an event is the state its handler leaves, also when the handler threw.
\<close>

datatype event =
    StartSpin
  | StopSpin nat
  | AnimationFrame
  | RevealTimer
  | ConfirmWinner nat
  | Respin
  | UndoLastDraw
  | ReaddWinner string
  | Reset "participant list"
  | SelectPrize int

fun step :: "event \<Rightarrow> lottery \<Rightarrow> lottery" where
  "step StartSpin s = startSpin s"
| "step (StopSpin r) s = stopSpin r s"
| "step AnimationFrame s = checkStop s"
| "step RevealTimer s = after (revealTimer s)"
| "step (ConfirmWinner now) s = after (confirmWinner now s)"
| "step Respin s = respin s"
| "step UndoLastDraw s = snd (undoLastDraw s)"
| "step (ReaddWinner ident) s = snd (readdWinner ident s)"
| "step (Reset ps) s = reset ps s"
| "step (SelectPrize prizeId) s = selectPrize prizeId s"

definition run :: "event list \<Rightarrow> lottery \<Rightarrow> lottery" where
  "run es s = fold step es s"

text \<open>
  The objects as their constructors leave them, for a page that has its elements:
  \<open>newDrawManager\<close> with no listener, \<open>newLotteryApp\<close> as \<^verbatim>\<open>LotteryApp.init\<close> leaves the
  application when no state was saved (listener installed, first refresh, auto-select).
\<close>

definition newDrawManager :: "participant list \<Rightarrow> prize_tier list \<Rightarrow> lottery" where
  "newDrawManager ps prizes =
     \<lparr>participants = ps, isSpinning = False, stopRequested = False, sm_pendingWinner = None,
      currentWinner = None, animationFrames = 0, revealTimers = 0, winnerNameEl = True,
      originalPrizes = prizes, prizeQueue = buildPrizeQueue prizes, currentIndex = 0,
      winners = [], state = READY, pendingWinner = None, actionButtons = True,
      onStateChange = None, app_originalParticipants = ps, app_originalPrizes = prizes\<rparr>"

definition newLotteryApp :: "participant list \<Rightarrow> prize_tier list \<Rightarrow> lottery" where
  "newLotteryApp ps prizes =
     autoSelectNextAvailablePrize (updateUI ((newDrawManager ps prizes)\<lparr>onStateChange := Some AutoSave\<rparr>))"

section \<open>AdminPanel: prize import\<close>

text \<open>
  The prize branch of \<^verbatim>\<open>handleImport\<close>, from the rows as mapped (\<^verbatim>\<open>parseInt\<close> applied):
  the three \<^verbatim>\<open>throw new Error\<close> are caught by the handler itself, which alerts and
  returns, having assigned nothing; otherwise the listener \<^verbatim>\<open>onDataImport\<close> of the
  application rebuilds the queue. The result is the error the handler reported, if any,
  and the state it leaves. \<^verbatim>\<open>Number.isInteger(p.quantity)\<close> holds of every \<open>int\<close>.
\<close>

definition validPrize :: "prize_tier \<Rightarrow> bool" where
  "validPrize p =
     (prize_id p > 0 \<and> length (prize_name p) > 0 \<and> length (prize_name p) \<le> 100 \<and>
      quantity p > 0 \<and> quantity p \<le> 1000)"

definition onDataImport_prizes :: "prize_tier list \<Rightarrow> lottery \<Rightarrow> lottery" where
  "onDataImport_prizes data s =
     updateUI (setParticipants (app_originalParticipants s)
       (wm_reset (setPrizes data (s\<lparr>app_originalPrizes := data\<rparr>))))"

definition handleImport_prizes :: "prize_tier list \<Rightarrow> lottery \<Rightarrow> error option \<times> lottery" where
  "handleImport_prizes data s =
     (if length data = 0 then (Some Error, s)
      else if length data > 10000 then (Some Error, s)
      else if list_all validPrize data then (None, onDataImport_prizes data s)
      else (Some Error, s))"

section \<open>Sequences of confirmations and undos\<close>

text \<open>
  \<open>confirmRounds\<close> performs one confirmation per entry of the list: the report of the
  winner arrives (\<^verbatim>\<open>onSpinComplete\<close>), the phase is \<^verbatim>\<open>STOPPED\<close>, and \<^verbatim>\<open>confirmWinner\<close>
  returns; it is \<open>None\<close> as soon as one confirmation is not performed. \<open>undos n\<close> calls
  \<^verbatim>\<open>undoLastDraw\<close> \<open>n\<close> times.
\<close>

fun confirmRounds :: "(participant \<times> nat) list \<Rightarrow> lottery \<Rightarrow> lottery option" where
  "confirmRounds [] s = Some s"
| "confirmRounds ((w, now) # rest) s =
     (let s1 = onSpinComplete (Some w) s
      in if state s1 = STOPPED then
           (case confirmWinner now s1 of
              Returns s2 \<Rightarrow> confirmRounds rest s2
            | Throws e s2 \<Rightarrow> None)
         else None)"

fun undos :: "nat \<Rightarrow> lottery \<Rightarrow> lottery" where
  "undos 0 s = s"
| "undos (Suc n) s = undos n (snd (undoLastDraw s))"

section \<open>What the display shows of an empty pool\<close>

text \<open>
  The page has its buttons, and with an empty pool the stored phase is \<^verbatim>\<open>COMPLETE\<close>: what
  every refresh of the buttons establishes.
\<close>

definition emptyPoolShown :: "lottery \<Rightarrow> bool" where
  "emptyPoolShown s = (actionButtons s \<and> (participants s = [] \<longrightarrow> state s = COMPLETE))"

section \<open>The pool as a list\<close>

text \<open>
  What \<^verbatim>\<open>removeParticipant\<close> and \<^verbatim>\<open>addParticipant\<close> do to the list of participants:
  the first entry with the id is spliced out; an entry is pushed unless its id is present.
\<close>

definition removeFirstById :: "string \<Rightarrow> participant list \<Rightarrow> participant list" where
  "removeFirstById ident ps =
     (case findIndex (\<lambda>p. p_id p = ident) ps of None \<Rightarrow> ps | Some i \<Rightarrow> splice1 i ps)"

definition addById :: "participant \<Rightarrow> participant list \<Rightarrow> participant list" where
  "addById p ps = (if p_id p \<in> p_id ` set ps then ps else ps @ [p])"

section \<open>What the listener is handed\<close>

text \<open>
  The state in which \<^verbatim>\<open>confirmWinner\<close> calls the listener (entry pushed, winner out of the
  pool, cursor advanced, pending cleared, phase \<^verbatim>\<open>READY\<close>, display refreshed), and the
  state in which \<^verbatim>\<open>undoLastDraw\<close> calls it (entry popped, cursor moved back, participant
  back in the pool). \<open>confirmHandovers\<close> lists these states for the confirmations of
  \<open>confirmRounds\<close>, \<open>undoHandovers\<close> for the undos of \<open>undos\<close>; an undo on an empty ledger
  notifies nobody.
\<close>

definition confirmHandsOver :: "participant \<Rightarrow> slot \<Rightarrow> nat \<Rightarrow> lottery \<Rightarrow> lottery" where
  "confirmHandsOver w pr now s =
     updateUI (s\<lparr>winners := winners s @ [winnerEntry w pr now],
        participants := removeFirstById (p_id w) (participants s),
        currentIndex := currentIndex s + 1, pendingWinner := None, sm_pendingWinner := None,
        state := READY\<rparr>)"

definition undoHandsOver :: "lottery \<Rightarrow> lottery" where
  "undoHandsOver s =
     s\<lparr>winners := butlast (winners s), currentIndex := currentIndex s - 1,
       participants := addById (asParticipant (last (winners s))) (participants s)\<rparr>"

fun confirmHandovers :: "(participant \<times> nat) list \<Rightarrow> lottery \<Rightarrow> lottery list" where
  "confirmHandovers [] s = []"
| "confirmHandovers ((w, now) # rest) s =
     (let s1 = onSpinComplete (Some w) s
      in if state s1 = STOPPED then
           (case getCurrentPrize s1 of
              None \<Rightarrow> []
            | Some pr \<Rightarrow>
                (let u = confirmHandsOver w pr now s1
                 in u # confirmHandovers rest (notify u)))
         else [])"

fun undoHandovers :: "nat \<Rightarrow> lottery \<Rightarrow> lottery list" where
  "undoHandovers 0 s = []"
| "undoHandovers (Suc n) s =
     (if winners s = [] then [] else [undoHandsOver s]) @ undoHandovers n (snd (undoLastDraw s))"

section \<open>Concrete inputs\<close>

text \<open>The tiers and participants of the scenarios, used where a statement is run on an input.\<close>

definition tier1 :: prize_tier where
  "tier1 = \<lparr>prize_id = 1, prize_name = ''Grand Prize'', name_vi = ''Giai Dac Biet'', quantity = 1\<rparr>"

definition tier2 :: prize_tier where
  "tier2 = \<lparr>prize_id = 2, prize_name = ''First Prize'', name_vi = ''Giai Nhat'', quantity = 2\<rparr>"

definition pA :: participant where "pA = \<lparr>p_id = ''A'', p_name = ''X''\<rparr>"

definition pB :: participant where "pB = \<lparr>p_id = ''B'', p_name = ''Y''\<rparr>"

definition pC :: participant where "pC = \<lparr>p_id = ''C'', p_name = ''Z''\<rparr>"

definition pD :: participant where "pD = \<lparr>p_id = ''D'', p_name = ''W''\<rparr>"

text \<open>
  Three tiers of which two share the id \<open>2\<close>; a tier with id \<open>0\<close>; a tier with quantity \<open>0\<close>;
  a tier without a name.
\<close>

definition tierA :: prize_tier where
  "tierA = \<lparr>prize_id = 2, prize_name = ''Voucher A'', name_vi = '''', quantity = 1\<rparr>"

definition tierB :: prize_tier where
  "tierB = \<lparr>prize_id = 1, prize_name = ''Grand Prize'', name_vi = '''', quantity = 1\<rparr>"

definition tierC :: prize_tier where
  "tierC = \<lparr>prize_id = 2, prize_name = ''Voucher C'', name_vi = '''', quantity = 1\<rparr>"

definition tierZero :: prize_tier where
  "tierZero = \<lparr>prize_id = 0, prize_name = ''Extra'', name_vi = '''', quantity = 2\<rparr>"

definition tierNone :: prize_tier where
  "tierNone = \<lparr>prize_id = 3, prize_name = ''Empty'', name_vi = '''', quantity = 0\<rparr>"

definition tierNameless :: prize_tier where
  "tierNameless = \<lparr>prize_id = 4, prize_name = '''', name_vi = '''', quantity = 1\<rparr>"

text \<open>The application and a draw manager without listener, freshly started.\<close>

definition appABC :: lottery where
  "appABC = newLotteryApp [pA, pB, pC] [tier1, tier2]"

definition appAB :: lottery where
  "appAB = newLotteryApp [pA, pB] [tier1, tier2]"

definition bareABC :: lottery where
  "bareABC = newDrawManager [pA, pB, pC] [tier1, tier2]"

text \<open>
  A spin up to the report of its winner (spin, stop with random draw \<open>r\<close>, the frame
  callback, the reveal callback), and one full draw, confirmed at time \<open>now\<close>.
\<close>

definition spinAndStop :: "nat \<Rightarrow> event list" where
  "spinAndStop r = [StartSpin, StopSpin r, AnimationFrame, RevealTimer]"

definition draw :: "nat \<Rightarrow> nat \<Rightarrow> event list" where
  "draw r now = spinAndStop r @ [ConfirmWinner now]"


text \<open>Two prizes of three have been awarded.\<close>

definition lastPrizeLeft :: lottery where
  "lastPrizeLeft = run (draw 0 1 @ draw 0 2) appABC"

text \<open>The only prize has been awarded.\<close>

definition allAwarded :: lottery where
  "allAwarded = run (draw 0 1) (newLotteryApp [pA, pB] [tier1])"



text \<open>
  A draw manager without listener after one confirmed draw; then the same after that
  winner was removed by id, a second draw was confirmed and a third winner was reported.
\<close>

definition bareOneAwarded :: lottery where
  "bareOneAwarded = run (draw 0 1) (newDrawManager [pA, pB, pC] [tier2])"

definition bareThirdPending :: lottery where
  "bareThirdPending = run ([ReaddWinner ''A''] @ draw 0 2 @ spinAndStop 0) bareOneAwarded"

text \<open>
  The application with the tiers that share an id, after two confirmed draws and a third
  winner reported.
\<close>

definition sharedIdThirdPending :: lottery where
  "sharedIdThirdPending =
     run (draw 0 1 @ draw 0 2 @ spinAndStop 0) (newLotteryApp [pA, pB, pC, pD] [tierA, tierB, tierC])"

text \<open>
  The application after a draw, a manual selection, an undo and a second draw; and after
  two draws and the removal of the first winner by id.
\<close>

definition outOfOrder :: lottery where
  "outOfOrder = run (draw 0 1 @ [SelectPrize 1, UndoLastDraw] @ draw 0 2) appABC"

definition vacated :: lottery where
  "vacated = run (draw 0 1 @ draw 0 2 @ [ReaddWinner ''A'']) appABC"

text \<open>The application after a manual selection of the grand prize and a reported winner.\<close>

definition manualPending :: lottery where
  "manualPending = run ([SelectPrize 1] @ spinAndStop 0) appAB"

section \<open>The queue built from the tiers\<close>

lemma expand_eq: "expand p i queue = queue @ map (slot_of p) [i + 1..quantity p]"
proof (induction p i queue rule: expand.induct)
  case (1 p i queue)
  show ?case
  proof (cases "i < quantity p")
    case True
    have "[i + 1..quantity p] = (i + 1) # [i + 1 + 1..quantity p]"
      using True by (simp add: upto_rec1)
    with 1 True show ?thesis by (simp add: expand.simps [of p i queue])
  next
    case False
    then show ?thesis by (simp add: expand.simps [of p i queue])
  qed
qed

lemma fold_expand: "fold (\<lambda>p queue. expand p 0 queue) ts acc = acc @ concat (map (\<lambda>t. map (slot_of t) [1..quantity t]) ts)"
  by (induction ts arbitrary: acc) (simp_all add: expand_eq)

lemma buildPrizeQueue_concat:
  "buildPrizeQueue prizes = concat (map (\<lambda>t. map (slot_of t) [1..quantity t]) (sortDescending prizes))"
  by (simp add: buildPrizeQueue_def fold_expand)

lemma sum_list_insort_key: "sum_list (map f (insort_key k x xs)) = f x + sum_list (map f xs)"
  for f :: "'a \<Rightarrow> int"
  by (induction xs) simp_all

lemma sum_list_sort_key: "sum_list (map f (sort_key k xs)) = sum_list (map f xs)"
  for f :: "'a \<Rightarrow> int"
  by (induction xs) (simp_all add: sum_list_insort_key)

lemma length_blocks:
  "\<forall>t\<in>set ts. 0 \<le> quantity t \<Longrightarrow>
   int (length (concat (map (\<lambda>t. map (slot_of t) [1..quantity t]) ts))) = sum_list (map quantity ts)"
  by (induction ts) simp_all

lemma length_buildPrizeQueue:
  assumes "\<forall>t\<in>set prizes. 0 \<le> quantity t"
  shows "int (length (buildPrizeQueue prizes)) = sum_list (map quantity prizes)"
proof -
  have "\<forall>t\<in>set (sortDescending prizes). 0 \<le> quantity t"
    using assms by (simp add: sortDescending_def)
  then have "int (length (buildPrizeQueue prizes)) = sum_list (map quantity (sortDescending prizes))"
    by (simp only: buildPrizeQueue_concat length_blocks)
  then show ?thesis by (simp add: sortDescending_def sum_list_sort_key)
qed

lemma sortDescending_sorted:
  "sorted_wrt (\<lambda>a b. prize_id a \<ge> prize_id b) (sortDescending prizes)"
proof -
  have "sorted (map (\<lambda>p. - prize_id p) (sortDescending prizes))"
    by (simp add: sortDescending_def)
  then show ?thesis by (simp add: sorted_wrt_map)
qed

lemma blocks_sorted:
  "sorted_wrt (\<lambda>a b. prize_id a \<ge> prize_id b) ts \<Longrightarrow>
   sorted_wrt (\<lambda>a b. prize_id a \<ge> prize_id b) (concat (map (\<lambda>t. map (slot_of t) [1..quantity t]) ts))"
proof (induction ts)
  case Nil
  then show ?case by simp
next
  case (Cons t ts)
  have id_slot: "\<And>u i. prize_id (slot_of u i) = prize_id u"
    by (simp add: slot_of_def)
  have blk: "sorted_wrt (\<lambda>a b. prize_id a \<ge> prize_id b) (map (slot_of t) [1..quantity t])"
    by (simp add: sorted_wrt_map id_slot sorted_wrt_true)
  from Cons show ?case
    by (auto simp: sorted_wrt_append blk id_slot)
qed

lemma buildPrizeQueue_sorted:
  "sorted_wrt (\<lambda>a b. prize_id a \<ge> prize_id b) (buildPrizeQueue prizes)"
  by (simp add: buildPrizeQueue_concat blocks_sorted sortDescending_sorted)

lemma filter_blocks:
  "distinct (map prize_id ts) \<Longrightarrow> t \<in> set ts \<Longrightarrow>
   filter (\<lambda>e. prize_id e = prize_id t) (concat (map (\<lambda>t. map (slot_of t) [1..quantity t]) ts))
     = map (slot_of t) [1..quantity t]"
proof (induction ts)
  case Nil
  then show ?case by simp
next
  case (Cons u ts)
  have other: "\<And>v. prize_id v \<noteq> prize_id t \<Longrightarrow>
      filter (\<lambda>e. prize_id e = prize_id t) (map (slot_of v) [1..quantity v]) = []"
    by (simp add: filter_empty_conv slot_of_def)
  have same: "filter (\<lambda>e. prize_id e = prize_id t) (map (slot_of t) [1..quantity t]) = map (slot_of t) [1..quantity t]"
    by (simp add: filter_id_conv slot_of_def)
  show ?case
  proof (cases "u = t")
    case True
    with Cons.prems have "\<forall>y\<in>set ts. prize_id y \<noteq> prize_id t" by (auto simp: image_iff)
    then have "filter (\<lambda>e. prize_id e = prize_id t) (concat (map (\<lambda>t. map (slot_of t) [1..quantity t]) ts)) = []"
      by (auto simp: filter_empty_conv slot_of_def)
    with True same show ?thesis by simp
  next
    case False
    with Cons.prems have "t \<in> set ts" and "prize_id u \<noteq> prize_id t" and "distinct (map prize_id ts)"
      by auto
    with Cons.IH other show ?thesis by simp
  qed
qed

lemma instances_of_tier:
  assumes "distinct (map prize_id prizes)" and "t \<in> set prizes"
  shows "map instance_no (filter (\<lambda>e. prize_id e = prize_id t) (buildPrizeQueue prizes)) = [1..quantity t]"
proof -
  have d: "distinct (map prize_id (sortDescending prizes))"
    using assms(1) by (simp add: sortDescending_def distinct_map)
  have m: "t \<in> set (sortDescending prizes)"
    using assms(2) by (simp add: sortDescending_def)
  have "map instance_no (map (slot_of t) [1..quantity t]) = [1..quantity t]"
    by (simp add: slot_of_def comp_def)
  then show ?thesis
    by (simp only: buildPrizeQueue_concat filter_blocks [OF d m])
qed

text \<open>
  Claim C5. For every list of prize tiers (quantities not negative), the built queue has as
  many entries as the quantities sum to, its entries are ordered by tier id descending, it
  is the concatenation, tier after tier in that order, of the instances \<open>1\<close> to \<open>quantity\<close>
  of each tier, and so, when the tier ids are distinct, the instance numbers of a tier's
  entries are \<open>1, 2, ..., quantity\<close> in queue order.
\<close>

theorem buildPrizeQueue_shape:
  assumes "\<forall>t\<in>set prizes. 0 \<le> quantity t"
  shows "int (length (buildPrizeQueue prizes)) = sum_list (map quantity prizes)
    \<and> sorted_wrt (\<lambda>a b. prize_id a \<ge> prize_id b) (buildPrizeQueue prizes)
    \<and> buildPrizeQueue prizes = concat (map (\<lambda>t. map (slot_of t) [1..quantity t]) (sortDescending prizes))
    \<and> (distinct (map prize_id prizes) \<longrightarrow>
         (\<forall>t\<in>set prizes. map instance_no (filter (\<lambda>e. prize_id e = prize_id t) (buildPrizeQueue prizes)) = [1..quantity t]))"
  using assms length_buildPrizeQueue buildPrizeQueue_sorted buildPrizeQueue_concat instances_of_tier
  by blast

theorem buildPrizeQueue_shape_witness:
  "length (buildPrizeQueue [tier1, tier2]) = 3
   \<and> buildPrizeQueue [tier1, tier2] = [slot_of tier2 1, slot_of tier2 2, slot_of tier1 1]
   \<and> map instance_no (filter (\<lambda>e. prize_id e = 2) (buildPrizeQueue [tier1, tier2])) = [1, 2]"
proof -
  have h: "\<forall>t\<in>set [tier1, tier2]. 0 \<le> quantity t" by (simp add: tier1_def tier2_def)
  have d: "distinct (map prize_id [tier1, tier2])" by (simp add: tier1_def tier2_def)
  have s: "sortDescending [tier1, tier2] = [tier2, tier1]"
    by (simp add: sortDescending_def tier1_def tier2_def)
  have q: "quantity tier1 = 1" "quantity tier2 = 2" "prize_id tier2 = 2" by (simp_all add: tier1_def tier2_def)
  have u: "[1..1] = [1::int]" "[1..2] = [1, 2::int]" by (simp_all add: upto_rec1)
  note r = buildPrizeQueue_shape [OF h]
  have m: "tier2 \<in> set [tier1, tier2]" by simp
  have "int (length (buildPrizeQueue [tier1, tier2])) = sum_list (map quantity [tier1, tier2])"
    by (rule r [THEN conjunct1])
  moreover have "buildPrizeQueue [tier1, tier2] =
      concat (map (\<lambda>t. map (slot_of t) [1..quantity t]) (sortDescending [tier1, tier2]))"
    by (rule r [THEN conjunct2, THEN conjunct2, THEN conjunct1])
  moreover have "map instance_no (filter (\<lambda>e. prize_id e = prize_id tier2) (buildPrizeQueue [tier1, tier2]))
      = [1..quantity tier2]"
    by (rule r [THEN conjunct2, THEN conjunct2, THEN conjunct2, rule_format, OF d m])
  ultimately show ?thesis by (simp add: s q u)
qed

section \<open>What the refresh and the listener can change\<close>

lemma updateButtons_eq:
  "updateButtons s =
     (if actionButtons s \<and> (getTotalPrizes s \<le> length (winners s) \<or> participants s = [])
      then s\<lparr>state := COMPLETE\<rparr> else s)"
  by (simp add: updateButtons_def Let_def)

lemma updateButtons_cases: "updateButtons s = s\<lparr>state := COMPLETE\<rparr> \<or> updateButtons s = s"
  by (simp add: updateButtons_eq)

lemma updateButtons_shape:
  "\<exists>st. updateButtons s = s\<lparr>state := st\<rparr> \<and> (st = state s \<or> st = COMPLETE)"
proof -
  have "s = s\<lparr>state := state s\<rparr>" by simp
  with updateButtons_cases [of s] show ?thesis by metis
qed

lemma updateUI_shape:
  "\<exists>st. updateUI s = s\<lparr>state := st\<rparr> \<and> (st = state s \<or> st = COMPLETE)"
  unfolding updateUI_def by (rule updateButtons_shape)

lemma keep_shape:
  "\<exists>i st. s = s\<lparr>currentIndex := i, state := st\<rparr> \<and> (st = state s \<or> st = COMPLETE)"
proof -
  have "s = s\<lparr>currentIndex := currentIndex s, state := state s\<rparr>" by simp
  then show ?thesis by blast
qed

lemma selectPrize_cases:
  "selectPrize prizeId s = s \<or> (\<exists>index. selectPrize prizeId s = updateUI (s\<lparr>currentIndex := index\<rparr>))"
proof (cases "find (\<lambda>p. prize_id p = prizeId) (app_originalPrizes s)")
  case None
  then show ?thesis by (simp add: selectPrize_def)
next
  case (Some pr)
  show ?thesis
  proof (cases "int (length (getWinnersByPrize prizeId s)) \<ge> quantity pr")
    case True
    with Some show ?thesis by (simp add: selectPrize_def Let_def)
  next
    case False
    show ?thesis
    proof (cases "findOccurrence prizeId (length (getWinnersByPrize prizeId s) + 1) 0 (prizeQueue s)")
      case None
      with Some False show ?thesis by (simp add: selectPrize_def Let_def)
    next
      case occ: (Some index)
      with Some False have "selectPrize prizeId s = updateUI (s\<lparr>currentIndex := index\<rparr>)"
        by (simp add: selectPrize_def Let_def)
      then show ?thesis by blast
    qed
  qed
qed

lemma selectPrize_shape:
  "\<exists>i st. selectPrize prizeId s = s\<lparr>currentIndex := i, state := st\<rparr> \<and> (st = state s \<or> st = COMPLETE)"
proof -
  from selectPrize_cases [of prizeId s] show ?thesis
  proof
    assume "selectPrize prizeId s = s"
    then show ?thesis using keep_shape [of s] by simp
  next
    assume "\<exists>index. selectPrize prizeId s = updateUI (s\<lparr>currentIndex := index\<rparr>)"
    then obtain index where e: "selectPrize prizeId s = updateUI (s\<lparr>currentIndex := index\<rparr>)" ..
    obtain st where "updateUI (s\<lparr>currentIndex := index\<rparr>) = s\<lparr>currentIndex := index, state := st\<rparr>"
      and "st = state s \<or> st = COMPLETE"
      using updateUI_shape [of "s\<lparr>currentIndex := index\<rparr>"] by auto
    with e show ?thesis by auto
  qed
qed

lemma autoSelect_cases:
  "autoSelectNextAvailablePrize s = s \<or> (\<exists>prizeId. autoSelectNextAvailablePrize s = selectPrize prizeId s)"
proof (cases "currentHasRemaining s")
  case True
  then show ?thesis by (simp add: autoSelectNextAvailablePrize_def)
next
  case False
  show ?thesis
  proof (cases "find (\<lambda>pr. int (length (getWinnersByPrize (prize_id pr) s)) < quantity pr)
                   (sortDescending (app_originalPrizes s))")
    case None
    with False show ?thesis by (simp add: autoSelectNextAvailablePrize_def)
  next
    case (Some pr)
    with False have "autoSelectNextAvailablePrize s = selectPrize (prize_id pr) s"
      by (simp add: autoSelectNextAvailablePrize_def)
    then show ?thesis by blast
  qed
qed

lemma autoSelect_shape:
  "\<exists>i st. autoSelectNextAvailablePrize s = s\<lparr>currentIndex := i, state := st\<rparr> \<and> (st = state s \<or> st = COMPLETE)"
  using autoSelect_cases [of s] keep_shape [of s] selectPrize_shape [of _ s] by metis

lemma notify_cases: "notify s = s \<or> notify s = autoSelectNextAvailablePrize s"
proof (cases "onStateChange s")
  case None
  then show ?thesis by (simp add: notify_def)
next
  case (Some cb)
  then show ?thesis by (cases cb) (simp add: notify_def)
qed

lemma notify_shape:
  "\<exists>i st. notify s = s\<lparr>currentIndex := i, state := st\<rparr> \<and> (st = state s \<or> st = COMPLETE)"
  using notify_cases [of s] keep_shape [of s] autoSelect_shape [of s] by metis

lemma notify_None [simp]: "onStateChange s = None \<Longrightarrow> notify s = s"
  by (simp add: notify_def)

lemma updateButtons_fields [simp]:
  shows "participants (updateButtons s) = participants s"
    and "isSpinning (updateButtons s) = isSpinning s"
    and "stopRequested (updateButtons s) = stopRequested s"
    and "sm_pendingWinner (updateButtons s) = sm_pendingWinner s"
    and "currentWinner (updateButtons s) = currentWinner s"
    and "animationFrames (updateButtons s) = animationFrames s"
    and "revealTimers (updateButtons s) = revealTimers s"
    and "winnerNameEl (updateButtons s) = winnerNameEl s"
    and "originalPrizes (updateButtons s) = originalPrizes s"
    and "prizeQueue (updateButtons s) = prizeQueue s"
    and "winners (updateButtons s) = winners s"
    and "pendingWinner (updateButtons s) = pendingWinner s"
    and "actionButtons (updateButtons s) = actionButtons s"
    and "onStateChange (updateButtons s) = onStateChange s"
    and "app_originalParticipants (updateButtons s) = app_originalParticipants s"
    and "app_originalPrizes (updateButtons s) = app_originalPrizes s"
    and "currentIndex (updateButtons s) = currentIndex s"
    and "getTotalPrizes (updateButtons s) = getTotalPrizes s"
proof -
  obtain st where e: "updateButtons s = s\<lparr>state := st\<rparr>"
    using updateButtons_shape by blast
  show "participants (updateButtons s) = participants s"
    and "isSpinning (updateButtons s) = isSpinning s"
    and "stopRequested (updateButtons s) = stopRequested s"
    and "sm_pendingWinner (updateButtons s) = sm_pendingWinner s"
    and "currentWinner (updateButtons s) = currentWinner s"
    and "animationFrames (updateButtons s) = animationFrames s"
    and "revealTimers (updateButtons s) = revealTimers s"
    and "winnerNameEl (updateButtons s) = winnerNameEl s"
    and "originalPrizes (updateButtons s) = originalPrizes s"
    and "prizeQueue (updateButtons s) = prizeQueue s"
    and "winners (updateButtons s) = winners s"
    and "pendingWinner (updateButtons s) = pendingWinner s"
    and "actionButtons (updateButtons s) = actionButtons s"
    and "onStateChange (updateButtons s) = onStateChange s"
    and "app_originalParticipants (updateButtons s) = app_originalParticipants s"
    and "app_originalPrizes (updateButtons s) = app_originalPrizes s"
    and "currentIndex (updateButtons s) = currentIndex s"
    and "getTotalPrizes (updateButtons s) = getTotalPrizes s"
    by (simp_all add: e getTotalPrizes_def)
qed

lemma updateUI_fields [simp]:
  shows "participants (updateUI s) = participants s"
    and "isSpinning (updateUI s) = isSpinning s"
    and "stopRequested (updateUI s) = stopRequested s"
    and "sm_pendingWinner (updateUI s) = sm_pendingWinner s"
    and "currentWinner (updateUI s) = currentWinner s"
    and "animationFrames (updateUI s) = animationFrames s"
    and "revealTimers (updateUI s) = revealTimers s"
    and "winnerNameEl (updateUI s) = winnerNameEl s"
    and "originalPrizes (updateUI s) = originalPrizes s"
    and "prizeQueue (updateUI s) = prizeQueue s"
    and "winners (updateUI s) = winners s"
    and "pendingWinner (updateUI s) = pendingWinner s"
    and "actionButtons (updateUI s) = actionButtons s"
    and "onStateChange (updateUI s) = onStateChange s"
    and "app_originalParticipants (updateUI s) = app_originalParticipants s"
    and "app_originalPrizes (updateUI s) = app_originalPrizes s"
    and "currentIndex (updateUI s) = currentIndex s"
    and "getTotalPrizes (updateUI s) = getTotalPrizes s"
proof -
  obtain st where e: "updateUI s = s\<lparr>state := st\<rparr>"
    using updateUI_shape by blast
  show "participants (updateUI s) = participants s"
    and "isSpinning (updateUI s) = isSpinning s"
    and "stopRequested (updateUI s) = stopRequested s"
    and "sm_pendingWinner (updateUI s) = sm_pendingWinner s"
    and "currentWinner (updateUI s) = currentWinner s"
    and "animationFrames (updateUI s) = animationFrames s"
    and "revealTimers (updateUI s) = revealTimers s"
    and "winnerNameEl (updateUI s) = winnerNameEl s"
    and "originalPrizes (updateUI s) = originalPrizes s"
    and "prizeQueue (updateUI s) = prizeQueue s"
    and "winners (updateUI s) = winners s"
    and "pendingWinner (updateUI s) = pendingWinner s"
    and "actionButtons (updateUI s) = actionButtons s"
    and "onStateChange (updateUI s) = onStateChange s"
    and "app_originalParticipants (updateUI s) = app_originalParticipants s"
    and "app_originalPrizes (updateUI s) = app_originalPrizes s"
    and "currentIndex (updateUI s) = currentIndex s"
    and "getTotalPrizes (updateUI s) = getTotalPrizes s"
    by (simp_all add: e getTotalPrizes_def)
qed

lemma selectPrize_fields [simp]:
  shows "participants (selectPrize prizeId s) = participants s"
    and "isSpinning (selectPrize prizeId s) = isSpinning s"
    and "stopRequested (selectPrize prizeId s) = stopRequested s"
    and "sm_pendingWinner (selectPrize prizeId s) = sm_pendingWinner s"
    and "currentWinner (selectPrize prizeId s) = currentWinner s"
    and "animationFrames (selectPrize prizeId s) = animationFrames s"
    and "revealTimers (selectPrize prizeId s) = revealTimers s"
    and "winnerNameEl (selectPrize prizeId s) = winnerNameEl s"
    and "originalPrizes (selectPrize prizeId s) = originalPrizes s"
    and "prizeQueue (selectPrize prizeId s) = prizeQueue s"
    and "winners (selectPrize prizeId s) = winners s"
    and "pendingWinner (selectPrize prizeId s) = pendingWinner s"
    and "actionButtons (selectPrize prizeId s) = actionButtons s"
    and "onStateChange (selectPrize prizeId s) = onStateChange s"
    and "app_originalParticipants (selectPrize prizeId s) = app_originalParticipants s"
    and "app_originalPrizes (selectPrize prizeId s) = app_originalPrizes s"
    and "getTotalPrizes (selectPrize prizeId s) = getTotalPrizes s"
proof -
  obtain i st where e: "selectPrize prizeId s = s\<lparr>currentIndex := i, state := st\<rparr>"
    using selectPrize_shape by blast
  show "participants (selectPrize prizeId s) = participants s"
    and "isSpinning (selectPrize prizeId s) = isSpinning s"
    and "stopRequested (selectPrize prizeId s) = stopRequested s"
    and "sm_pendingWinner (selectPrize prizeId s) = sm_pendingWinner s"
    and "currentWinner (selectPrize prizeId s) = currentWinner s"
    and "animationFrames (selectPrize prizeId s) = animationFrames s"
    and "revealTimers (selectPrize prizeId s) = revealTimers s"
    and "winnerNameEl (selectPrize prizeId s) = winnerNameEl s"
    and "originalPrizes (selectPrize prizeId s) = originalPrizes s"
    and "prizeQueue (selectPrize prizeId s) = prizeQueue s"
    and "winners (selectPrize prizeId s) = winners s"
    and "pendingWinner (selectPrize prizeId s) = pendingWinner s"
    and "actionButtons (selectPrize prizeId s) = actionButtons s"
    and "onStateChange (selectPrize prizeId s) = onStateChange s"
    and "app_originalParticipants (selectPrize prizeId s) = app_originalParticipants s"
    and "app_originalPrizes (selectPrize prizeId s) = app_originalPrizes s"
    and "getTotalPrizes (selectPrize prizeId s) = getTotalPrizes s"
    by (simp_all add: e getTotalPrizes_def)
qed

lemma autoSelect_fields [simp]:
  shows "participants (autoSelectNextAvailablePrize s) = participants s"
    and "isSpinning (autoSelectNextAvailablePrize s) = isSpinning s"
    and "stopRequested (autoSelectNextAvailablePrize s) = stopRequested s"
    and "sm_pendingWinner (autoSelectNextAvailablePrize s) = sm_pendingWinner s"
    and "currentWinner (autoSelectNextAvailablePrize s) = currentWinner s"
    and "animationFrames (autoSelectNextAvailablePrize s) = animationFrames s"
    and "revealTimers (autoSelectNextAvailablePrize s) = revealTimers s"
    and "winnerNameEl (autoSelectNextAvailablePrize s) = winnerNameEl s"
    and "originalPrizes (autoSelectNextAvailablePrize s) = originalPrizes s"
    and "prizeQueue (autoSelectNextAvailablePrize s) = prizeQueue s"
    and "winners (autoSelectNextAvailablePrize s) = winners s"
    and "pendingWinner (autoSelectNextAvailablePrize s) = pendingWinner s"
    and "actionButtons (autoSelectNextAvailablePrize s) = actionButtons s"
    and "onStateChange (autoSelectNextAvailablePrize s) = onStateChange s"
    and "app_originalParticipants (autoSelectNextAvailablePrize s) = app_originalParticipants s"
    and "app_originalPrizes (autoSelectNextAvailablePrize s) = app_originalPrizes s"
    and "getTotalPrizes (autoSelectNextAvailablePrize s) = getTotalPrizes s"
proof -
  obtain i st where e: "autoSelectNextAvailablePrize s = s\<lparr>currentIndex := i, state := st\<rparr>"
    using autoSelect_shape by blast
  show "participants (autoSelectNextAvailablePrize s) = participants s"
    and "isSpinning (autoSelectNextAvailablePrize s) = isSpinning s"
    and "stopRequested (autoSelectNextAvailablePrize s) = stopRequested s"
    and "sm_pendingWinner (autoSelectNextAvailablePrize s) = sm_pendingWinner s"
    and "currentWinner (autoSelectNextAvailablePrize s) = currentWinner s"
    and "animationFrames (autoSelectNextAvailablePrize s) = animationFrames s"
    and "revealTimers (autoSelectNextAvailablePrize s) = revealTimers s"
    and "winnerNameEl (autoSelectNextAvailablePrize s) = winnerNameEl s"
    and "originalPrizes (autoSelectNextAvailablePrize s) = originalPrizes s"
    and "prizeQueue (autoSelectNextAvailablePrize s) = prizeQueue s"
    and "winners (autoSelectNextAvailablePrize s) = winners s"
    and "pendingWinner (autoSelectNextAvailablePrize s) = pendingWinner s"
    and "actionButtons (autoSelectNextAvailablePrize s) = actionButtons s"
    and "onStateChange (autoSelectNextAvailablePrize s) = onStateChange s"
    and "app_originalParticipants (autoSelectNextAvailablePrize s) = app_originalParticipants s"
    and "app_originalPrizes (autoSelectNextAvailablePrize s) = app_originalPrizes s"
    and "getTotalPrizes (autoSelectNextAvailablePrize s) = getTotalPrizes s"
    by (simp_all add: e getTotalPrizes_def)
qed

lemma notify_fields [simp]:
  shows "participants (notify s) = participants s"
    and "isSpinning (notify s) = isSpinning s"
    and "stopRequested (notify s) = stopRequested s"
    and "sm_pendingWinner (notify s) = sm_pendingWinner s"
    and "currentWinner (notify s) = currentWinner s"
    and "animationFrames (notify s) = animationFrames s"
    and "revealTimers (notify s) = revealTimers s"
    and "winnerNameEl (notify s) = winnerNameEl s"
    and "originalPrizes (notify s) = originalPrizes s"
    and "prizeQueue (notify s) = prizeQueue s"
    and "winners (notify s) = winners s"
    and "pendingWinner (notify s) = pendingWinner s"
    and "actionButtons (notify s) = actionButtons s"
    and "onStateChange (notify s) = onStateChange s"
    and "app_originalParticipants (notify s) = app_originalParticipants s"
    and "app_originalPrizes (notify s) = app_originalPrizes s"
    and "getTotalPrizes (notify s) = getTotalPrizes s"
proof -
  obtain i st where e: "notify s = s\<lparr>currentIndex := i, state := st\<rparr>"
    using notify_shape by blast
  show "participants (notify s) = participants s"
    and "isSpinning (notify s) = isSpinning s"
    and "stopRequested (notify s) = stopRequested s"
    and "sm_pendingWinner (notify s) = sm_pendingWinner s"
    and "currentWinner (notify s) = currentWinner s"
    and "animationFrames (notify s) = animationFrames s"
    and "revealTimers (notify s) = revealTimers s"
    and "winnerNameEl (notify s) = winnerNameEl s"
    and "originalPrizes (notify s) = originalPrizes s"
    and "prizeQueue (notify s) = prizeQueue s"
    and "winners (notify s) = winners s"
    and "pendingWinner (notify s) = pendingWinner s"
    and "actionButtons (notify s) = actionButtons s"
    and "onStateChange (notify s) = onStateChange s"
    and "app_originalParticipants (notify s) = app_originalParticipants s"
    and "app_originalPrizes (notify s) = app_originalPrizes s"
    and "getTotalPrizes (notify s) = getTotalPrizes s"
    by (simp_all add: e getTotalPrizes_def)
qed



lemma state_selectPrize: "state (selectPrize prizeId s) = state s \<or> state (selectPrize prizeId s) = COMPLETE"
  using selectPrize_shape [of prizeId s] by auto


section \<open>The operations as single updates\<close>

lemma list_ex_p_id: "list_ex (\<lambda>q. p_id q = x) ps = (x \<in> p_id ` set ps)"
  by (induction ps) auto

lemma addParticipant_eq:
  "addParticipant p s =
     (if p_id p \<in> p_id ` set (participants s) then (False, s)
      else (True, s\<lparr>participants := participants s @ [p]\<rparr>))"
  by (simp add: addParticipant_def list_ex_p_id)

lemma startSpin_eq:
  "startSpin s =
     (if state s = READY \<and> length (winners s) < getTotalPrizes s \<and> participants s \<noteq> [] \<and> \<not> isSpinning s
      then updateButtons (s\<lparr>isSpinning := True, stopRequested := False, sm_pendingWinner := None,
             animationFrames := animationFrames s + 1, state := SPINNING\<rparr>)
      else s)"
  by (simp add: startSpin_def sm_startSpin_def hasParticipants_def)

lemma stopSpin_eq:
  "stopSpin r s =
     (if state s = SPINNING \<and> isSpinning s \<and> \<not> stopRequested s
      then s\<lparr>stopRequested := True,
             sm_pendingWinner := (if participants s = [] then None
                                  else Some (participants s ! (r mod length (participants s))))\<rparr>
      else s)"
  by (simp add: stopSpin_def sm_stop_def Let_def)

lemma checkStop_eq:
  "checkStop s =
     (if animationFrames s = 0 \<or> \<not> stopRequested s then s
      else (case sm_pendingWinner s of
              None \<Rightarrow> s\<lparr>animationFrames := animationFrames s - 1\<rparr>
            | Some w \<Rightarrow> s\<lparr>animationFrames := animationFrames s - 1, revealTimers := revealTimers s + 1\<rparr>))"
  by (cases "sm_pendingWinner s") (simp_all add: checkStop_def finishSpin_def Let_def)

lemma revealTimer_eq:
  "after (revealTimer s) =
     (if revealTimers s = 0 then s
      else (case sm_pendingWinner s of
              None \<Rightarrow> s\<lparr>revealTimers := revealTimers s - 1, isSpinning := False, currentWinner := None\<rparr>
            | Some w \<Rightarrow> updateButtons (s\<lparr>revealTimers := revealTimers s - 1, isSpinning := False,
                           currentWinner := Some w, pendingWinner := Some w, state := STOPPED\<rparr>)))"
  by (cases "sm_pendingWinner s") (simp_all add: revealTimer_def onSpinComplete_def Let_def)

lemma onSpinComplete_Some:
  "onSpinComplete (Some w) s = updateButtons (s\<lparr>pendingWinner := Some w, state := STOPPED\<rparr>)"
  by (simp add: onSpinComplete_def)

lemma confirmWinner_skip:
  "pendingWinner s = None \<or> state s \<noteq> STOPPED \<Longrightarrow> confirmWinner now s = Returns s"
  by (cases "pendingWinner s") (auto simp: confirmWinner_def)

lemma confirmWinner_throws:
  "pendingWinner s = Some w \<Longrightarrow> state s = STOPPED \<Longrightarrow> getCurrentPrize s = None \<Longrightarrow>
   confirmWinner now s = Throws TypeError s"
  by (simp add: confirmWinner_def addWinner_def)

lemma getCurrentPrize_Some:
  "getCurrentPrize s = Some pr \<longleftrightarrow> currentIndex s < length (prizeQueue s) \<and> pr = prizeQueue s ! currentIndex s"
  by (auto simp: getCurrentPrize_def)

lemma getCurrentPrize_None: "getCurrentPrize s = None \<longleftrightarrow> length (prizeQueue s) \<le> currentIndex s"
  by (simp add: getCurrentPrize_def)

lemma removeParticipant_eq:
  "snd (removeParticipant ident s) = s\<lparr>participants := removeFirstById ident (participants s)\<rparr>"
  by (cases "findIndex (\<lambda>p. p_id p = ident) (participants s)")
     (simp_all add: removeParticipant_def removeFirstById_def)

lemma confirmWinner_returns:
  assumes "pendingWinner s = Some w" and "state s = STOPPED" and "getCurrentPrize s = Some pr"
  shows "confirmWinner now s =
     Returns (notify (updateUI (s\<lparr>winners := winners s @ [winnerEntry w pr now],
        participants := removeFirstById (p_id w) (participants s),
        currentIndex := currentIndex s + 1, pendingWinner := None, sm_pendingWinner := None,
        state := READY\<rparr>)))"
proof -
  have lt: "currentIndex s < length (prizeQueue s)"
    using assms(3) by (simp add: getCurrentPrize_Some)
  show ?thesis
    using assms lt
    by (simp add: confirmWinner_def addWinner_def Let_def removeParticipant_eq
        advanceToNextPrize_def clearPendingWinner_def)
qed

lemma respin_eq:
  "respin s =
     (if state s = STOPPED
      then updateButtons (s\<lparr>pendingWinner := None, animationFrames := animationFrames s - 1,
             isSpinning := False, stopRequested := False, sm_pendingWinner := None,
             currentWinner := None, state := READY\<rparr>)
      else s)"
  by (simp add: respin_def sm_reset_def clearPendingWinner_def)

lemma snd_addParticipant: "snd (addParticipant p s) = s\<lparr>participants := addById p (participants s)\<rparr>"
  by (simp add: addParticipant_eq addById_def)

lemma undoLastPrize_eq: "undoLastPrize s = s\<lparr>currentIndex := currentIndex s - 1\<rparr>"
proof (cases "currentIndex s > 0")
  case True
  then show ?thesis by (simp add: undoLastPrize_def)
next
  case False
  then have "s\<lparr>currentIndex := currentIndex s - 1\<rparr> = s"
    by (intro lottery.equality) simp_all
  with False show ?thesis by (simp add: undoLastPrize_def)
qed

lemma undoLastDraw_empty: "winners s = [] \<Longrightarrow> undoLastDraw s = (None, s)"
  by (simp add: undoLastDraw_def removeLastWinner_def)

lemma undoLastDraw_nonempty:
  "winners s \<noteq> [] \<Longrightarrow>
   undoLastDraw s =
     (Some (last (winners s)),
      updateUI ((notify (s\<lparr>winners := butlast (winners s), currentIndex := currentIndex s - 1,
           participants := addById (asParticipant (last (winners s))) (participants s)\<rparr>))\<lparr>state := READY\<rparr>))"
  by (simp add: undoLastDraw_def removeLastWinner_def Let_def undoLastPrize_eq snd_addParticipant)

lemma readdWinner_absent:
  "findIndex (\<lambda>w. p_id w = ident) (winners s) = None \<Longrightarrow> readdWinner ident s = (None, s)"
  by (simp add: readdWinner_def removeWinnerById_def)

lemma readdWinner_present:
  "findIndex (\<lambda>w. p_id w = ident) (winners s) = Some i \<Longrightarrow>
   readdWinner ident s =
     (Some (winners s ! i),
      notify (s\<lparr>winners := splice1 i (winners s),
                participants := addById (asParticipant (winners s ! i)) (participants s)\<rparr>))"
  by (simp add: readdWinner_def removeWinnerById_def snd_addParticipant)

lemma reset_eq:
  "reset ps s =
     notify (updateUI (s\<lparr>currentIndex := 0, winners := [], participants := ps,
        animationFrames := animationFrames s - 1, isSpinning := False, stopRequested := False,
        sm_pendingWinner := None, currentWinner := None, pendingWinner := None, state := READY\<rparr>))"
  by (simp add: reset_def Let_def sm_reset_def setParticipants_def wm_reset_def pm_reset_def)

section \<open>The pool\<close>

lemma distinct_splice1: "distinct (map f xs) \<Longrightarrow> distinct (map f (splice1 i xs))"
proof -
  assume d: "distinct (map f xs)"
  have "map f (splice1 i xs) = take i (map f xs) @ drop (Suc i) (map f xs)"
    by (simp add: splice1_def take_map drop_map)
  moreover have "set (take i (map f xs)) \<inter> set (drop (Suc i) (map f xs)) = {}"
    using d by (intro set_take_disj_set_drop_if_distinct) simp_all
  ultimately show ?thesis using d by (simp add: distinct_take distinct_drop)
qed

lemma distinct_removeFirstById:
  "distinct (map p_id ps) \<Longrightarrow> distinct (map p_id (removeFirstById ident ps))"
  by (cases "findIndex (\<lambda>p. p_id p = ident) ps") (simp_all add: removeFirstById_def distinct_splice1)

lemma distinct_addById: "distinct (map p_id ps) \<Longrightarrow> distinct (map p_id (addById p ps))"
  by (simp add: addById_def)

lemma distinct_confirmWinner:
  assumes "distinct (map p_id (participants s))"
  shows "distinct (map p_id (participants (after (confirmWinner now s))))"
proof (cases "pendingWinner s = None \<or> state s \<noteq> STOPPED")
  case True
  then show ?thesis using assms by (simp add: confirmWinner_skip)
next
  case False
  then obtain w where w: "pendingWinner s = Some w" "state s = STOPPED" by auto
  show ?thesis
  proof (cases "getCurrentPrize s")
    case None
    with w assms show ?thesis by (simp add: confirmWinner_throws)
  next
    case (Some pr)
    with w assms show ?thesis by (simp add: confirmWinner_returns distinct_removeFirstById)
  qed
qed

lemma distinct_undoLastDraw:
  assumes "distinct (map p_id (participants s))"
  shows "distinct (map p_id (participants (snd (undoLastDraw s))))"
proof (cases "winners s = []")
  case True
  then show ?thesis using assms by (simp add: undoLastDraw_empty)
next
  case False
  then show ?thesis using assms by (simp add: undoLastDraw_nonempty distinct_addById)
qed

lemma distinct_readdWinner:
  assumes "distinct (map p_id (participants s))"
  shows "distinct (map p_id (participants (snd (readdWinner ident s))))"
proof (cases "findIndex (\<lambda>w. p_id w = ident) (winners s)")
  case None
  then show ?thesis using assms by (simp add: readdWinner_absent)
next
  case (Some i)
  then show ?thesis using assms by (simp add: readdWinner_present distinct_addById)
qed

lemma participants_startSpin [simp]: "participants (startSpin s) = participants s"
  by (simp add: startSpin_eq)

lemma participants_stopSpin [simp]: "participants (stopSpin r s) = participants s"
  by (simp add: stopSpin_eq)

lemma participants_checkStop [simp]: "participants (checkStop s) = participants s"
  by (cases "sm_pendingWinner s") (simp_all add: checkStop_eq)

lemma participants_revealTimer [simp]: "participants (after (revealTimer s)) = participants s"
  by (cases "sm_pendingWinner s") (simp_all add: revealTimer_eq)

lemma participants_respin [simp]: "participants (respin s) = participants s"
  by (simp add: respin_eq)

lemma participants_reset [simp]: "participants (reset ps s) = ps"
  by (simp add: reset_eq)

lemma distinct_step:
  assumes "distinct (map p_id (participants s))"
    and "\<And>ps. e = Reset ps \<Longrightarrow> distinct (map p_id ps)"
  shows "distinct (map p_id (participants (step e s)))"
proof (cases e)
  case (ConfirmWinner now)
  then show ?thesis using assms(1) by (simp add: distinct_confirmWinner)
next
  case UndoLastDraw
  then show ?thesis using assms(1) by (simp add: distinct_undoLastDraw)
next
  case (ReaddWinner ident)
  then show ?thesis using assms(1) by (simp add: distinct_readdWinner)
next
  case (Reset ps)
  then show ?thesis using assms(2) by simp
qed (use assms(1) in simp_all)

lemma distinct_run:
  "distinct (map p_id (participants s)) \<Longrightarrow> (\<And>ps. Reset ps \<in> set es \<Longrightarrow> distinct (map p_id ps)) \<Longrightarrow>
   distinct (map p_id (participants (run es s)))"
proof (induction es arbitrary: s)
  case Nil
  then show ?case by (simp add: run_def)
next
  case (Cons e es)
  have "distinct (map p_id (participants (step e s)))"
    using Cons.prems by (intro distinct_step) auto
  then have "distinct (map p_id (participants (run es (step e s))))"
    using Cons.prems(2) by (intro Cons.IH) auto
  then show ?case by (simp add: run_def)
qed

text \<open>
  Claim C9. Adding a participant whose id is already in the pool returns \<^verbatim>\<open>false\<close> and
  leaves everything unchanged; consequently, from a pool with distinct ids, no sequence of
  the orchestrator's operations (a reset being given a list with distinct ids) produces a
  pool in which two entries share an id.
\<close>

theorem addParticipant_guard_keeps_ids_unique:
  "(p_id p \<in> p_id ` set (participants s) \<longrightarrow> addParticipant p s = (False, s))
   \<and> (distinct (map p_id (participants s)) \<and> (\<forall>ps. Reset ps \<in> set es \<longrightarrow> distinct (map p_id ps))
        \<longrightarrow> distinct (map p_id (participants (run es s))))"
  using distinct_run [of s es] by (auto simp: addParticipant_eq)

theorem addParticipant_guard_keeps_ids_unique_witness:
  "addParticipant pA (newLotteryApp [pA, pB] [tier1, tier2]) = (False, newLotteryApp [pA, pB] [tier1, tier2])
   \<and> distinct (map p_id (participants
        (run (draw 0 1 @ [UndoLastDraw, Reset [pA, pB, pC]] @ draw 1 2 @ [ReaddWinner ''B''])
           (newLotteryApp [pA, pB] [tier1, tier2]))))"
proof -
  have h1: "p_id pA \<in> p_id ` set (participants (newLotteryApp [pA, pB] [tier1, tier2]))"
    by code_simp
  have h2: "distinct (map p_id (participants (newLotteryApp [pA, pB] [tier1, tier2])))"
    by code_simp
  have h3: "\<forall>ps. Reset ps \<in> set (draw 0 1 @ [UndoLastDraw, Reset [pA, pB, pC]] @ draw 1 2 @ [ReaddWinner ''B''])
      \<longrightarrow> distinct (map p_id ps)"
    by (auto simp: draw_def spinAndStop_def pA_def pB_def pC_def)
  show ?thesis
    using addParticipant_guard_keeps_ids_unique
      [of pA "newLotteryApp [pA, pB] [tier1, tier2]"
          "draw 0 1 @ [UndoLastDraw, Reset [pA, pB, pC]] @ draw 1 2 @ [ReaddWinner ''B'']"]
      h1 h2 h3
    by blast
qed

section \<open>Validation of imported tiers\<close>

text \<open>
  Claim C6 says that building the queue fails with a validation error on a tier with
  \<open>quantity < 1\<close>, \<open>quantity > 1000\<close> or \<open>id \<le> 0\<close>. \<^verbatim>\<open>buildPrizeQueue\<close> checks nothing: a
  tier with id \<open>0\<close> is expanded like any other, and a tier with quantity \<open>0\<close> yields no slot.
\<close>

theorem buildPrizeQueue_never_fails_counterexample:
  "buildPrizeQueue [tierZero] = [slot_of tierZero 1, slot_of tierZero 2]
   \<and> prize_id tierZero \<le> 0
   \<and> buildPrizeQueue [tierNone] = [] \<and> quantity tierNone < 1"
  by code_simp

text \<open>
  Claim C6, amended. The check is made where tiers are imported. The import handler
  rejects with an error, assigning nothing and leaving the state exactly as it was, an
  empty list, a list of more than 10000 rows, and any list holding a tier with \<open>id \<le> 0\<close>,
  an empty name, a name longer than 100, \<open>quantity < 1\<close> or \<open>quantity > 1000\<close>. Every other
  list is accepted: the queue is built from it, the tiers are stored, the cursor is \<open>0\<close>,
  the ledger is empty and the pool is the original list of participants.
\<close>

theorem handleImport_prizes_validates:
  "((data = [] \<or> length data > 10000
       \<or> (\<exists>t\<in>set data. prize_id t \<le> 0 \<or> prize_name t = [] \<or> length (prize_name t) > 100
              \<or> quantity t < 1 \<or> quantity t > 1000))
      \<longrightarrow> handleImport_prizes data s = (Some Error, s))
   \<and> (data \<noteq> [] \<and> length data \<le> 10000
       \<and> (\<forall>t\<in>set data. 0 < prize_id t \<and> prize_name t \<noteq> [] \<and> length (prize_name t) \<le> 100
              \<and> 1 \<le> quantity t \<and> quantity t \<le> 1000)
      \<longrightarrow> (\<exists>s'. handleImport_prizes data s = (None, s') \<and> prizeQueue s' = buildPrizeQueue data
             \<and> originalPrizes s' = data \<and> app_originalPrizes s' = data
             \<and> currentIndex s' = 0 \<and> winners s' = []
             \<and> participants s' = app_originalParticipants s))"
proof (intro conjI impI)
  assume bad: "data = [] \<or> length data > 10000
       \<or> (\<exists>t\<in>set data. prize_id t \<le> 0 \<or> prize_name t = [] \<or> length (prize_name t) > 100
              \<or> quantity t < 1 \<or> quantity t > 1000)"
  show "handleImport_prizes data s = (Some Error, s)"
  proof (cases "data = [] \<or> length data > 10000")
    case True
    then show ?thesis by (auto simp: handleImport_prizes_def)
  next
    case False
    with bad obtain t where t: "t \<in> set data"
      "prize_id t \<le> 0 \<or> prize_name t = [] \<or> length (prize_name t) > 100
         \<or> quantity t < 1 \<or> quantity t > 1000"
      by blast
    from t(2) have "\<not> validPrize t"
      by (auto simp: validPrize_def)
    with t(1) have "\<not> list_all validPrize data"
      unfolding list_all_iff by blast
    then show ?thesis by (simp add: handleImport_prizes_def)
  qed
next
  assume ok: "data \<noteq> [] \<and> length data \<le> 10000
       \<and> (\<forall>t\<in>set data. 0 < prize_id t \<and> prize_name t \<noteq> [] \<and> length (prize_name t) \<le> 100
              \<and> 1 \<le> quantity t \<and> quantity t \<le> 1000)"
  have "list_all validPrize data"
    unfolding list_all_iff
  proof
    fix t assume "t \<in> set data"
    with ok have "0 < prize_id t \<and> prize_name t \<noteq> [] \<and> length (prize_name t) \<le> 100
              \<and> 1 \<le> quantity t \<and> quantity t \<le> 1000" by blast
    then show "validPrize t" by (simp add: validPrize_def)
  qed
  with ok have "handleImport_prizes data s = (None, onDataImport_prizes data s)"
    by (simp add: handleImport_prizes_def)
  moreover obtain st where "onDataImport_prizes data s =
      (setParticipants (app_originalParticipants s) (wm_reset (setPrizes data (s\<lparr>app_originalPrizes := data\<rparr>))))\<lparr>state := st\<rparr>"
    unfolding onDataImport_prizes_def using updateUI_shape by blast
  ultimately show "\<exists>s'. handleImport_prizes data s = (None, s') \<and> prizeQueue s' = buildPrizeQueue data
             \<and> originalPrizes s' = data \<and> app_originalPrizes s' = data
             \<and> currentIndex s' = 0 \<and> winners s' = []
             \<and> participants s' = app_originalParticipants s"
    by (simp add: setParticipants_def wm_reset_def setPrizes_def)
qed

theorem handleImport_prizes_validates_witness:
  "(\<forall>s. handleImport_prizes [] s = (Some Error, s))
   \<and> (\<forall>s. handleImport_prizes [tier1, tierZero] s = (Some Error, s))
   \<and> (\<forall>s. handleImport_prizes [tier1, tierNone] s = (Some Error, s))
   \<and> (\<forall>s. handleImport_prizes [tier1, tierNameless] s = (Some Error, s))
   \<and> (\<exists>s'. handleImport_prizes [tier1, tier2] (newLotteryApp [pA, pB] [tier1]) = (None, s')
        \<and> prizeQueue s' = buildPrizeQueue [tier1, tier2] \<and> currentIndex s' = 0 \<and> winners s' = [])"
proof -
  have a: "\<exists>t\<in>set [tier1, tierZero]. prize_id t \<le> 0 \<or> prize_name t = [] \<or> length (prize_name t) > 100
              \<or> quantity t < 1 \<or> quantity t > 1000"
    by (simp add: tierZero_def)
  have b: "\<exists>t\<in>set [tier1, tierNone]. prize_id t \<le> 0 \<or> prize_name t = [] \<or> length (prize_name t) > 100
              \<or> quantity t < 1 \<or> quantity t > 1000"
    by (simp add: tierNone_def)
  have n: "\<exists>t\<in>set [tier1, tierNameless]. prize_id t \<le> 0 \<or> prize_name t = [] \<or> length (prize_name t) > 100
              \<or> quantity t < 1 \<or> quantity t > 1000"
    by (simp add: tierNameless_def)
  have c: "[tier1, tier2] \<noteq> [] \<and> length [tier1, tier2] \<le> 10000
       \<and> (\<forall>t\<in>set [tier1, tier2]. 0 < prize_id t \<and> prize_name t \<noteq> [] \<and> length (prize_name t) \<le> 100
              \<and> 1 \<le> quantity t \<and> quantity t \<le> 1000)"
    by (simp add: tier1_def tier2_def)
  have "\<And>s. handleImport_prizes [] s = (Some Error, s)"
    using handleImport_prizes_validates [of "[]", THEN conjunct1] by blast
  moreover have "\<And>s. handleImport_prizes [tier1, tierZero] s = (Some Error, s)"
    using handleImport_prizes_validates [of "[tier1, tierZero]", THEN conjunct1] a by blast
  moreover have "\<And>s. handleImport_prizes [tier1, tierNone] s = (Some Error, s)"
    using handleImport_prizes_validates [of "[tier1, tierNone]", THEN conjunct1] b by blast
  moreover have "\<And>s. handleImport_prizes [tier1, tierNameless] s = (Some Error, s)"
    using handleImport_prizes_validates [of "[tier1, tierNameless]", THEN conjunct1] n by blast
  moreover have "\<exists>s'. handleImport_prizes [tier1, tier2] (newLotteryApp [pA, pB] [tier1]) = (None, s')
        \<and> prizeQueue s' = buildPrizeQueue [tier1, tier2] \<and> currentIndex s' = 0 \<and> winners s' = []"
    using handleImport_prizes_validates [of "[tier1, tier2]" "newLotteryApp [pA, pB] [tier1]", THEN conjunct2] c
    by blast
  ultimately show ?thesis by blast
qed

section \<open>Completion and the legality of a draw\<close>

lemma canDraw_eq:
  "canDraw s = (state s = READY \<and> length (winners s) < getTotalPrizes s \<and> participants s \<noteq> [])"
  by (auto simp: canDraw_def Let_def hasParticipants_def)

lemma canDraw_updateButtons: "canDraw (updateButtons s) = canDraw s"
  using updateButtons_cases [of s]
proof
  assume e: "updateButtons s = s\<lparr>state := COMPLETE\<rparr>"
  show ?thesis
  proof (cases "actionButtons s \<and> (getTotalPrizes s \<le> length (winners s) \<or> participants s = [])")
    case True
    then show ?thesis by (auto simp: canDraw_eq e getTotalPrizes_def)
  next
    case False
    then have "updateButtons s = s" by (auto simp: updateButtons_eq)
    then show ?thesis by simp
  qed
next
  assume "updateButtons s = s"
  then show ?thesis by simp
qed

lemma canDraw_cursor: "canDraw (s\<lparr>currentIndex := i\<rparr>) = canDraw s"
  by (simp add: canDraw_eq getTotalPrizes_def)

lemma canDraw_selectPrize: "canDraw (selectPrize prizeId s) = canDraw s"
  using selectPrize_cases [of prizeId s]
  by (auto simp: updateUI_def canDraw_updateButtons canDraw_cursor)

lemma state_updateButtons_keeps:
  "length (winners s) < getTotalPrizes s \<Longrightarrow> participants s \<noteq> [] \<Longrightarrow> updateButtons s = s"
  by (simp add: updateButtons_eq)

lemma state_selectPrize_keeps:
  assumes "length (winners s) < getTotalPrizes s" and "participants s \<noteq> []"
  shows "state (selectPrize prizeId s) = state s"
  using selectPrize_cases [of prizeId s]
proof
  assume "selectPrize prizeId s = s"
  then show ?thesis by simp
next
  assume "\<exists>index. selectPrize prizeId s = updateUI (s\<lparr>currentIndex := index\<rparr>)"
  then obtain index where e: "selectPrize prizeId s = updateUI (s\<lparr>currentIndex := index\<rparr>)" ..
  have "updateButtons (s\<lparr>currentIndex := index\<rparr>) = s\<lparr>currentIndex := index\<rparr>"
    using assms by (intro state_updateButtons_keeps) (simp_all add: getTotalPrizes_def)
  with e show ?thesis by (simp add: updateUI_def)
qed

lemma startSpin_complete: "getTotalPrizes s \<le> length (winners s) \<Longrightarrow> startSpin s = s"
  by (simp add: startSpin_eq)

lemma state_startSpin_cursor: "state (startSpin (s\<lparr>currentIndex := i\<rparr>)) = state (startSpin s)"
proof -
  let ?u = "s\<lparr>isSpinning := True, stopRequested := False, sm_pendingWinner := None,
             animationFrames := animationFrames s + 1, state := SPINNING\<rparr>"
  let ?v = "s\<lparr>currentIndex := i, isSpinning := True, stopRequested := False, sm_pendingWinner := None,
             animationFrames := animationFrames s + 1, state := SPINNING\<rparr>"
  have "state (updateButtons ?v) = state (updateButtons ?u)"
    by (simp add: updateButtons_eq getTotalPrizes_def)
  then show ?thesis by (simp add: startSpin_eq getTotalPrizes_def)
qed

lemma prizeQueue_step: "prizeQueue (step e s) = prizeQueue s"
proof (cases e)
  case StartSpin
  then show ?thesis by (simp add: startSpin_eq)
next
  case (StopSpin r)
  then show ?thesis by (simp add: stopSpin_eq)
next
  case AnimationFrame
  then show ?thesis by (cases "sm_pendingWinner s") (simp_all add: checkStop_eq)
next
  case RevealTimer
  then show ?thesis by (cases "sm_pendingWinner s") (simp_all add: revealTimer_eq)
next
  case (ConfirmWinner now)
  show ?thesis
  proof (cases "pendingWinner s = None \<or> state s \<noteq> STOPPED")
    case True
    with ConfirmWinner show ?thesis by (simp add: confirmWinner_skip)
  next
    case False
    then obtain w where w: "pendingWinner s = Some w" "state s = STOPPED" by auto
    show ?thesis
    proof (cases "getCurrentPrize s")
      case None
      with w ConfirmWinner show ?thesis by (simp add: confirmWinner_throws)
    next
      case (Some pr)
      with w ConfirmWinner show ?thesis by (simp add: confirmWinner_returns)
    qed
  qed
next
  case Respin
  then show ?thesis by (simp add: respin_eq)
next
  case UndoLastDraw
  then show ?thesis
    by (cases "winners s = []") (simp_all add: undoLastDraw_empty undoLastDraw_nonempty)
next
  case (ReaddWinner ident)
  then show ?thesis
    by (cases "findIndex (\<lambda>w. p_id w = ident) (winners s)")
       (simp_all add: readdWinner_absent readdWinner_present)
next
  case (Reset ps)
  then show ?thesis by (simp add: reset_eq)
next
  case (SelectPrize prizeId)
  then show ?thesis by simp
qed

lemma prizeQueue_run: "prizeQueue (run es s) = prizeQueue s"
  by (induction es arbitrary: s) (simp_all add: run_def prizeQueue_step)

lemma prizeQueue_newLotteryApp: "prizeQueue (newLotteryApp ps prizes) = buildPrizeQueue prizes"
  by (simp add: newLotteryApp_def newDrawManager_def)

lemma startSpin_guard:
  "(state s = READY \<and> length (winners s) < getTotalPrizes s \<and> participants s \<noteq> [] \<and> \<not> isSpinning s)
     = (canDraw s \<and> \<not> isSpinning s)"
  by (auto simp: canDraw_eq)

lemma startSpin_exact:
  "startSpin s =
     (if canDraw s \<and> \<not> isSpinning s
      then s\<lparr>isSpinning := True, stopRequested := False, sm_pendingWinner := None,
             animationFrames := animationFrames s + 1, state := SPINNING\<rparr>
      else s)"
proof (cases "canDraw s \<and> \<not> isSpinning s")
  case True
  let ?u = "s\<lparr>isSpinning := True, stopRequested := False, sm_pendingWinner := None,
             animationFrames := animationFrames s + 1, state := SPINNING\<rparr>"
  from True have g: "length (winners s) < getTotalPrizes s" "participants s \<noteq> []"
    by (simp_all add: canDraw_eq)
  have k: "updateButtons ?u = ?u"
    using g by (intro state_updateButtons_keeps) (simp_all add: getTotalPrizes_def)
  have "startSpin s = updateButtons ?u"
    unfolding startSpin_eq startSpin_guard using True by (rule if_P)
  also note k
  also have "?u = (if canDraw s \<and> \<not> isSpinning s then ?u else s)"
    using True by (rule if_P [symmetric])
  finally show ?thesis .
next
  case False
  then have "startSpin s = s"
    unfolding startSpin_eq startSpin_guard by (rule if_not_P)
  also have "s = (if canDraw s \<and> \<not> isSpinning s
      then s\<lparr>isSpinning := True, stopRequested := False, sm_pendingWinner := None,
             animationFrames := animationFrames s + 1, state := SPINNING\<rparr>
      else s)"
    using False by (rule if_not_P [symmetric])
  finally show ?thesis .
qed

lemma shown_updateButtons: "actionButtons u \<Longrightarrow> emptyPoolShown (updateButtons u)"
  by (simp add: emptyPoolShown_def updateButtons_eq)

lemma shown_updateUI: "actionButtons u \<Longrightarrow> emptyPoolShown (updateUI u)"
  by (simp add: updateUI_def shown_updateButtons)

lemma shown_selectPrize: "emptyPoolShown s \<Longrightarrow> emptyPoolShown (selectPrize prizeId s)"
  using selectPrize_cases [of prizeId s]
proof
  assume "emptyPoolShown s" "selectPrize prizeId s = s"
  then show ?thesis by simp
next
  assume s: "emptyPoolShown s"
    and "\<exists>index. selectPrize prizeId s = updateUI (s\<lparr>currentIndex := index\<rparr>)"
  then obtain index where e: "selectPrize prizeId s = updateUI (s\<lparr>currentIndex := index\<rparr>)" by blast
  have "actionButtons (s\<lparr>currentIndex := index\<rparr>)" using s by (simp add: emptyPoolShown_def)
  then show ?thesis unfolding e by (rule shown_updateUI)
qed

lemma shown_autoSelect: "emptyPoolShown s \<Longrightarrow> emptyPoolShown (autoSelectNextAvailablePrize s)"
  using autoSelect_cases [of s] shown_selectPrize [of s] by auto

lemma shown_notify: "emptyPoolShown s \<Longrightarrow> emptyPoolShown (notify s)"
  using notify_cases [of s] shown_autoSelect [of s] by auto

lemma shown_step:
  assumes i: "emptyPoolShown s"
  shows "emptyPoolShown (step e s)"
proof -
  have ab: "actionButtons s" using i by (simp add: emptyPoolShown_def)
  show ?thesis
  proof (cases e)
    case StartSpin
    show ?thesis
    proof (cases "state s = READY \<and> length (winners s) < getTotalPrizes s \<and> participants s \<noteq> [] \<and> \<not> isSpinning s")
      case True
      then have "startSpin s = updateButtons (s\<lparr>isSpinning := True, stopRequested := False,
          sm_pendingWinner := None, animationFrames := animationFrames s + 1, state := SPINNING\<rparr>)"
        unfolding startSpin_eq by (rule if_P)
      with StartSpin ab show ?thesis by (simp add: shown_updateButtons)
    next
      case False
      then have "startSpin s = s" unfolding startSpin_eq by (rule if_not_P)
      with StartSpin i show ?thesis by simp
    qed
  next
    case (StopSpin r)
    with i show ?thesis by (auto simp: stopSpin_eq emptyPoolShown_def)
  next
    case AnimationFrame
    with i show ?thesis by (cases "sm_pendingWinner s") (simp_all add: checkStop_eq emptyPoolShown_def)
  next
    case RevealTimer
    show ?thesis
    proof (cases "sm_pendingWinner s")
      case None
      with RevealTimer i show ?thesis by (simp add: revealTimer_eq emptyPoolShown_def)
    next
      case (Some w)
      show ?thesis
      proof (cases "revealTimers s = 0")
        case True
        with RevealTimer i show ?thesis by (simp add: revealTimer_eq)
      next
        case False
        with Some have "after (revealTimer s) = updateButtons (s\<lparr>revealTimers := revealTimers s - 1,
            isSpinning := False, currentWinner := Some w, pendingWinner := Some w, state := STOPPED\<rparr>)"
          by (simp add: revealTimer_eq)
        with RevealTimer ab show ?thesis by (simp add: shown_updateButtons)
      qed
    qed
  next
    case (ConfirmWinner now)
    show ?thesis
    proof (cases "pendingWinner s = None \<or> state s \<noteq> STOPPED")
      case True
      with ConfirmWinner i show ?thesis by (simp add: confirmWinner_skip)
    next
      case False
      then obtain w where w: "pendingWinner s = Some w" "state s = STOPPED" by auto
      show ?thesis
      proof (cases "getCurrentPrize s")
        case None
        with w ConfirmWinner i show ?thesis by (simp add: confirmWinner_throws)
      next
        case (Some pr)
        let ?u = "s\<lparr>winners := winners s @ [winnerEntry w pr now],
          participants := removeFirstById (p_id w) (participants s),
          currentIndex := currentIndex s + 1, pendingWinner := None, sm_pendingWinner := None,
          state := READY\<rparr>"
        have "emptyPoolShown (notify (updateUI ?u))"
          using ab by (intro shown_notify shown_updateUI) simp
        with w Some ConfirmWinner show ?thesis by (simp add: confirmWinner_returns)
      qed
    qed
  next
    case Respin
    show ?thesis
    proof (cases "state s = STOPPED")
      case True
      then have "respin s = updateButtons (s\<lparr>pendingWinner := None, animationFrames := animationFrames s - 1,
             isSpinning := False, stopRequested := False, sm_pendingWinner := None,
             currentWinner := None, state := READY\<rparr>)"
        by (simp add: respin_eq)
      with Respin ab show ?thesis by (simp add: shown_updateButtons)
    next
      case False
      then have "respin s = s" by (simp add: respin_eq)
      with Respin i show ?thesis by simp
    qed
  next
    case UndoLastDraw
    show ?thesis
    proof (cases "winners s = []")
      case True
      with UndoLastDraw i show ?thesis by (simp add: undoLastDraw_empty)
    next
      case False
      let ?u = "notify (s\<lparr>winners := butlast (winners s), currentIndex := currentIndex s - 1,
           participants := addById (asParticipant (last (winners s))) (participants s)\<rparr>)"
      have "emptyPoolShown (updateUI (?u\<lparr>state := READY\<rparr>))"
        using ab by (intro shown_updateUI) simp
      with UndoLastDraw False show ?thesis by (simp add: undoLastDraw_nonempty)
    qed
  next
    case (ReaddWinner ident)
    show ?thesis
    proof (cases "findIndex (\<lambda>w. p_id w = ident) (winners s)")
      case None
      with ReaddWinner i show ?thesis by (simp add: readdWinner_absent)
    next
      case (Some k)
      let ?u = "s\<lparr>winners := splice1 k (winners s),
                participants := addById (asParticipant (winners s ! k)) (participants s)\<rparr>"
      have "addById (asParticipant (winners s ! k)) (participants s) \<noteq> []"
        by (auto simp: addById_def)
      then have "emptyPoolShown ?u" using ab by (simp add: emptyPoolShown_def)
      then have "emptyPoolShown (notify ?u)" by (rule shown_notify)
      with ReaddWinner Some show ?thesis by (simp add: readdWinner_present)
    qed
  next
    case (Reset ps)
    let ?u = "s\<lparr>currentIndex := 0, winners := [], participants := ps,
        animationFrames := animationFrames s - 1, isSpinning := False, stopRequested := False,
        sm_pendingWinner := None, currentWinner := None, pendingWinner := None, state := READY\<rparr>"
    have "emptyPoolShown (notify (updateUI ?u))"
      using ab by (intro shown_notify shown_updateUI) simp
    with Reset show ?thesis by (simp add: reset_eq)
  next
    case (SelectPrize prizeId)
    with i show ?thesis by (simp add: shown_selectPrize)
  qed
qed

lemma shown_run: "emptyPoolShown s \<Longrightarrow> emptyPoolShown (run es s)"
  by (induction es arbitrary: s) (simp_all add: run_def shown_step)

lemma shown_newLotteryApp: "emptyPoolShown (newLotteryApp ps prizes)"
  unfolding newLotteryApp_def
  by (intro shown_autoSelect shown_updateUI) (simp add: newDrawManager_def)

lemma state_selectPrize_shown:
  assumes "emptyPoolShown s" and "length (winners s) < getTotalPrizes s"
  shows "state (selectPrize prizeId s) = state s"
proof (cases "participants s = []")
  case True
  with assms(1) have "state s = COMPLETE" by (simp add: emptyPoolShown_def)
  with state_selectPrize [of prizeId s] show ?thesis by auto
next
  case False
  with assms(2) show ?thesis by (rule state_selectPrize_keeps)
qed

lemma state_selectPrize_reached:
  "length (winners (run es (newLotteryApp ps prizes))) < getTotalPrizes (run es (newLotteryApp ps prizes))
   \<Longrightarrow> state (selectPrize prizeId (run es (newLotteryApp ps prizes))) = state (run es (newLotteryApp ps prizes))"
  by (intro state_selectPrize_shown shown_run shown_newLotteryApp)

text \<open>
  Claim C3. Whether a draw may start is decided by comparing the number of ledger entries
  with the length of the queue, which is the sum of the tier quantities in every state the
  application reaches. \<^verbatim>\<open>canDraw\<close> is exactly that comparison together with the phase and
  the pool; \<^verbatim>\<open>startSpin\<close> starts the spin exactly when \<^verbatim>\<open>canDraw\<close> holds and the slot
  machine is not spinning, and changes nothing otherwise, in particular when the ledger has
  reached the queue length; neither reads the cursor. Manual prize selection changes no
  answer of \<^verbatim>\<open>canDraw\<close>; it leaves the phase as it is while the ledger is short of the
  total, in every state with a non-empty pool and in every state the application reaches,
  so it never makes the system report completion.
\<close>

theorem completion_is_read_from_the_ledger:
  "canDraw s = (state s = READY \<and> length (winners s) < getTotalPrizes s \<and> participants s \<noteq> [])
   \<and> startSpin s =
       (if canDraw s \<and> \<not> isSpinning s
        then s\<lparr>isSpinning := True, stopRequested := False, sm_pendingWinner := None,
               animationFrames := animationFrames s + 1, state := SPINNING\<rparr>
        else s)
   \<and> (getTotalPrizes s \<le> length (winners s) \<longrightarrow> startSpin s = s)
   \<and> canDraw (s\<lparr>currentIndex := i\<rparr>) = canDraw s
   \<and> state (startSpin (s\<lparr>currentIndex := i\<rparr>)) = state (startSpin s)
   \<and> canDraw (selectPrize prizeId s) = canDraw s
   \<and> (length (winners s) < getTotalPrizes s \<and> participants s \<noteq> []
        \<longrightarrow> state (selectPrize prizeId s) = state s)
   \<and> (length (winners (run es (newLotteryApp ps prizes))) < getTotalPrizes (run es (newLotteryApp ps prizes))
        \<longrightarrow> state (selectPrize prizeId (run es (newLotteryApp ps prizes)))
              = state (run es (newLotteryApp ps prizes)))
   \<and> ((\<forall>t\<in>set prizes. 0 \<le> quantity t)
        \<longrightarrow> int (getTotalPrizes (run es (newLotteryApp ps prizes))) = sum_list (map quantity prizes))"
proof -
  have "(\<forall>t\<in>set prizes. 0 \<le> quantity t)
        \<longrightarrow> int (getTotalPrizes (run es (newLotteryApp ps prizes))) = sum_list (map quantity prizes)"
    by (simp add: getTotalPrizes_def prizeQueue_run prizeQueue_newLotteryApp length_buildPrizeQueue)
  moreover note canDraw_eq [of s] startSpin_exact [of s] canDraw_cursor [where s = s and i = i]
      state_startSpin_cursor [where s = s and i = i] canDraw_selectPrize [of prizeId s]
  moreover have "getTotalPrizes s \<le> length (winners s) \<longrightarrow> startSpin s = s"
    using startSpin_complete [of s] by blast
  moreover have "length (winners s) < getTotalPrizes s \<and> participants s \<noteq> []
        \<longrightarrow> state (selectPrize prizeId s) = state s"
    using state_selectPrize_keeps [where s = s and prizeId = prizeId] by blast
  moreover have "length (winners (run es (newLotteryApp ps prizes))) < getTotalPrizes (run es (newLotteryApp ps prizes))
        \<longrightarrow> state (selectPrize prizeId (run es (newLotteryApp ps prizes)))
              = state (run es (newLotteryApp ps prizes))"
    using state_selectPrize_reached [of es ps prizes prizeId] by blast
  ultimately show ?thesis by (intro conjI)
qed

theorem completion_is_read_from_the_ledger_witness:
  "currentIndex (selectPrize 1 (newLotteryApp [pA, pB] [tier1, tier2])) = 2
   \<and> canDraw (selectPrize 1 (newLotteryApp [pA, pB] [tier1, tier2]))
   \<and> state (selectPrize 1 (newLotteryApp [pA, pB] [tier1, tier2])) = READY
   \<and> getTotalPrizes (run [SelectPrize 1] (newLotteryApp [pA, pB] [tier1, tier2])) = 3
   \<and> length (winners lastPrizeLeft) = 2 \<and> getTotalPrizes lastPrizeLeft = 3
   \<and> state (startSpin lastPrizeLeft) = SPINNING
   \<and> state (selectPrize 1 lastPrizeLeft) = READY"
proof -
  let ?s = "newLotteryApp [pA, pB] [tier1, tier2]"
  note t = completion_is_read_from_the_ledger
      [where s = ?s and i = 0 and prizeId = 1 and prizes = "[tier1, tier2]" and es = "[SelectPrize 1]"
         and ps = "[pA, pB]"]
  note u = completion_is_read_from_the_ledger
      [where s = lastPrizeLeft and i = 0 and prizeId = 1 and prizes = "[tier1, tier2]"
         and es = "draw 0 1 @ draw 0 2" and ps = "[pA, pB, pC]"]
  have a: "canDraw ?s" "state ?s = READY" "length (winners ?s) < getTotalPrizes ?s \<and> participants ?s \<noteq> []"
    by code_simp+
  have b: "currentIndex (selectPrize 1 ?s) = 2" by code_simp
  have c: "\<forall>t\<in>set [tier1, tier2]. 0 \<le> quantity t" by (simp add: tier1_def tier2_def)
  have d: "sum_list (map quantity [tier1, tier2]) = 3" by (simp add: tier1_def tier2_def)
  have l: "canDraw lastPrizeLeft \<and> \<not> isSpinning lastPrizeLeft" "length (winners lastPrizeLeft) = 2"
    "getTotalPrizes lastPrizeLeft = 3" "state lastPrizeLeft = READY"
    by code_simp+
  have r: "lastPrizeLeft = run (draw 0 1 @ draw 0 2) (newLotteryApp [pA, pB, pC] [tier1, tier2])"
    by (simp add: lastPrizeLeft_def appABC_def)
  have "canDraw (selectPrize 1 ?s)" using t [THEN conjunct2, THEN conjunct2, THEN conjunct2,
      THEN conjunct2, THEN conjunct2, THEN conjunct1] a(1) by simp
  moreover have "state (selectPrize 1 ?s) = READY"
    using t [THEN conjunct2, THEN conjunct2, THEN conjunct2, THEN conjunct2, THEN conjunct2,
      THEN conjunct2, THEN conjunct1] a(2,3) by simp
  moreover have "getTotalPrizes (run [SelectPrize 1] ?s) = 3"
    using t [THEN conjunct2, THEN conjunct2, THEN conjunct2, THEN conjunct2, THEN conjunct2,
      THEN conjunct2, THEN conjunct2, THEN conjunct2] c d by simp
  moreover have "state (startSpin lastPrizeLeft) = SPINNING"
    using u [THEN conjunct2, THEN conjunct1] l(1) by simp
  moreover have "state (selectPrize 1 lastPrizeLeft) = READY"
    using u [THEN conjunct2, THEN conjunct2, THEN conjunct2, THEN conjunct2, THEN conjunct2,
      THEN conjunct2, THEN conjunct2, THEN conjunct1, folded r] l(2,3,4) by simp
  ultimately show ?thesis using b l(2,3) by (intro conjI)
qed

section \<open>Undo and targeted removal\<close>

lemma findIndex_Some:
  "findIndex P xs = Some i \<longleftrightarrow> i < length xs \<and> P (xs ! i) \<and> (\<forall>j<i. \<not> P (xs ! j))"
proof (induction xs arbitrary: i)
  case Nil
  then show ?case by simp
next
  case (Cons x xs)
  show ?case
  proof (cases "P x")
    case True
    then show ?thesis by (cases i) auto
  next
    case False
    show ?thesis
    proof (cases i)
      case 0
      with False show ?thesis by auto
    next
      case (Suc k)
      have "(\<forall>j<Suc k. \<not> P ((x # xs) ! j)) \<longleftrightarrow> (\<forall>j<k. \<not> P (xs ! j))"
        using False by (auto simp: less_Suc_eq_0_disj)
      with Suc False Cons.IH [of k] show ?thesis by auto
    qed
  qed
qed

lemma findIndex_None: "findIndex P xs = None \<longleftrightarrow> (\<forall>x\<in>set xs. \<not> P x)"
  by (induction xs) auto






text \<open>
  Claim C10 says that the targeted removal leaves the cursor unchanged. \<^verbatim>\<open>readdWinner\<close>
  ends by notifying the listener, and the listener of the application selects a prize when
  the current one is exhausted: after the only prize has been awarded the cursor is at the
  end of the queue, and the removal of that winner leaves it at \<open>0\<close>.
\<close>

theorem readdWinner_moves_cursor_counterexample:
  "onStateChange allAwarded = Some AutoSave
   \<and> length (winners allAwarded) = 1 \<and> currentIndex allAwarded = 1
   \<and> winners (snd (readdWinner ''A'' allAwarded)) = []
   \<and> currentIndex (snd (readdWinner ''A'' allAwarded)) = 0"
  by code_simp

text \<open>
  Claim C10, amended. \<^verbatim>\<open>readdWinner\<close> with an id that no ledger entry has returns
  \<^verbatim>\<open>null\<close> and changes nothing. Otherwise it removes exactly one entry, the first with
  that id, pushes its participant to the pool unless the id is there, writes nothing else
  (the cursor and the queue are as before in the state it hands to the listener), and
  notifies the listener; with no listener installed the cursor is unchanged, and the slot
  the entry held stays without an entry.
\<close>

theorem readdWinner_effect:
  "(ident \<notin> p_id ` set (winners s) \<longrightarrow> readdWinner ident s = (None, s))
   \<and> (ident \<in> p_id ` set (winners s) \<longrightarrow>
        (\<exists>i<length (winners s).
           p_id (winners s ! i) = ident \<and> (\<forall>j<i. p_id (winners s ! j) \<noteq> ident)
           \<and> readdWinner ident s =
               (Some (winners s ! i),
                notify (s\<lparr>winners := take i (winners s) @ drop (Suc i) (winners s),
                   participants := addById (asParticipant (winners s ! i)) (participants s)\<rparr>))
           \<and> winners (snd (readdWinner ident s)) = take i (winners s) @ drop (Suc i) (winners s)
           \<and> participants (snd (readdWinner ident s)) = addById (asParticipant (winners s ! i)) (participants s)
           \<and> prizeQueue (snd (readdWinner ident s)) = prizeQueue s
           \<and> (onStateChange s = None \<longrightarrow> currentIndex (snd (readdWinner ident s)) = currentIndex s)))"
proof (cases "findIndex (\<lambda>w. p_id w = ident) (winners s)")
  case None
  then have "ident \<notin> p_id ` set (winners s)"
    by (auto simp: findIndex_None)
  with None show ?thesis by (simp add: readdWinner_absent)
next
  case (Some i)
  then have i: "i < length (winners s)" "p_id (winners s ! i) = ident" "\<forall>j<i. p_id (winners s ! j) \<noteq> ident"
    by (simp_all add: findIndex_Some)
  note e = readdWinner_present [OF Some, unfolded splice1_def]
  have f: "winners (snd (readdWinner ident s)) = take i (winners s) @ drop (Suc i) (winners s)"
    "participants (snd (readdWinner ident s)) = addById (asParticipant (winners s ! i)) (participants s)"
    "prizeQueue (snd (readdWinner ident s)) = prizeQueue s"
    "onStateChange s = None \<longrightarrow> currentIndex (snd (readdWinner ident s)) = currentIndex s"
    by (simp_all add: e)
  have mem: "ident \<in> p_id ` set (winners s)"
  proof -
    have "winners s ! i \<in> set (winners s)" using i(1) by simp
    then have "p_id (winners s ! i) \<in> p_id ` set (winners s)" by (rule imageI)
    then show ?thesis by (simp only: i(2))
  qed
  have "\<exists>i<length (winners s).
           p_id (winners s ! i) = ident \<and> (\<forall>j<i. p_id (winners s ! j) \<noteq> ident)
           \<and> readdWinner ident s =
               (Some (winners s ! i),
                notify (s\<lparr>winners := take i (winners s) @ drop (Suc i) (winners s),
                   participants := addById (asParticipant (winners s ! i)) (participants s)\<rparr>))
           \<and> winners (snd (readdWinner ident s)) = take i (winners s) @ drop (Suc i) (winners s)
           \<and> participants (snd (readdWinner ident s)) = addById (asParticipant (winners s ! i)) (participants s)
           \<and> prizeQueue (snd (readdWinner ident s)) = prizeQueue s
           \<and> (onStateChange s = None \<longrightarrow> currentIndex (snd (readdWinner ident s)) = currentIndex s)"
    by (rule exI [of _ i]) (intro conjI i e f)
  with mem show ?thesis by (intro conjI impI) (simp_all only: not_True_eq_False simp_thms)
qed

theorem readdWinner_effect_witness:
  "readdWinner ''Z'' bareOneAwarded = (None, bareOneAwarded)
   \<and> winners (snd (readdWinner ''A'' bareOneAwarded)) = []
   \<and> participants (snd (readdWinner ''A'' bareOneAwarded)) = [pB, pC, pA]
   \<and> currentIndex (snd (readdWinner ''A'' bareOneAwarded)) = 1"
proof -
  have a: "''Z'' \<notin> p_id ` set (winners bareOneAwarded)" by code_simp
  have b: "''A'' \<in> p_id ` set (winners bareOneAwarded)" by code_simp
  have c: "length (winners bareOneAwarded) = 1" "onStateChange bareOneAwarded = None"
    "currentIndex bareOneAwarded = 1"
    "addById (asParticipant (winners bareOneAwarded ! 0)) (participants bareOneAwarded) = [pB, pC, pA]"
    by code_simp+
  note absent = readdWinner_effect [of "''Z''" bareOneAwarded, THEN conjunct1, rule_format, OF a]
  have "winners (snd (readdWinner ''A'' bareOneAwarded)) = []
      \<and> participants (snd (readdWinner ''A'' bareOneAwarded)) = [pB, pC, pA]
      \<and> currentIndex (snd (readdWinner ''A'' bareOneAwarded)) = 1"
    using readdWinner_effect [of "''A''" bareOneAwarded, THEN conjunct2, rule_format, OF b]
  proof (elim exE conjE)
    fix i
    assume i: "i < length (winners bareOneAwarded)"
      and w: "winners (snd (readdWinner ''A'' bareOneAwarded)) =
              take i (winners bareOneAwarded) @ drop (Suc i) (winners bareOneAwarded)"
      and p: "participants (snd (readdWinner ''A'' bareOneAwarded)) =
              addById (asParticipant (winners bareOneAwarded ! i)) (participants bareOneAwarded)"
      and k: "onStateChange bareOneAwarded = None \<longrightarrow>
              currentIndex (snd (readdWinner ''A'' bareOneAwarded)) = currentIndex bareOneAwarded"
    from i c(1) have i0: "i = 0" by simp
    have "winners (snd (readdWinner ''A'' bareOneAwarded)) = []"
      using w c(1) by (simp add: i0)
    moreover have "participants (snd (readdWinner ''A'' bareOneAwarded)) = [pB, pC, pA]"
      using p c(4) by (simp only: i0)
    moreover have "currentIndex (snd (readdWinner ''A'' bareOneAwarded)) = 1"
      using k c(2,3) by simp
    ultimately show ?thesis by (intro conjI)
  qed
  with absent show ?thesis by (intro conjI) (simp_all only:)
qed

section \<open>Reports that arrive after a reset\<close>







section \<open>Confirmations followed by as many undos\<close>

lemma removeFirstById_Cons:
  "removeFirstById ident (p # ps) = (if p_id p = ident then ps else p # removeFirstById ident ps)"
  by (cases "findIndex (\<lambda>p. p_id p = ident) ps") (simp_all add: removeFirstById_def splice1_def)

lemma removeFirstById_Nil [simp]: "removeFirstById ident [] = []"
  by (simp add: removeFirstById_def)

lemma set_removeFirstById:
  "distinct (map p_id ps) \<Longrightarrow> w \<in> set ps \<Longrightarrow> set (removeFirstById (p_id w) ps) = set ps - {w}"
proof (induction ps)
  case Nil
  then show ?case by simp
next
  case (Cons p ps)
  show ?case
  proof (cases "p = w")
    case True
    with Cons.prems have "w \<notin> set ps" by auto
    with True show ?thesis by (simp add: removeFirstById_Cons)
  next
    case False
    with Cons.prems have w: "w \<in> set ps" by simp
    from Cons.prems have d: "distinct (map p_id ps)" and n: "p_id p \<notin> p_id ` set ps" by simp_all
    from n w have "p_id p \<noteq> p_id w" by auto
    moreover from n have "p \<notin> set ps" by auto
    ultimately show ?thesis
      using Cons.IH [OF d w] False by (auto simp: removeFirstById_Cons)
  qed
qed

lemma id_gone:
  assumes "distinct (map p_id ps)" and "w \<in> set ps"
  shows "p_id w \<notin> p_id ` (set ps - {w})"
proof
  assume "p_id w \<in> p_id ` (set ps - {w})"
  then obtain x where "x \<in> set ps - {w}" and "p_id w = p_id x" by (rule imageE)
  then have x: "x \<in> set ps" "x \<noteq> w" "p_id x = p_id w" by simp_all
  from assms(1) have "inj_on p_id (set ps)" by (simp add: distinct_map)
  then have "x = w" using x(3) x(1) assms(2) by (rule inj_onD)
  with x(2) show False by simp
qed

lemma asParticipant_winnerEntry [simp]: "asParticipant (winnerEntry w pr now) = w"
  by (simp add: asParticipant_def winnerEntry_def)

lemma confirmWinner_hands_over:
  "pendingWinner s = Some w \<Longrightarrow> state s = STOPPED \<Longrightarrow> getCurrentPrize s = Some pr \<Longrightarrow>
   confirmWinner now s = Returns (notify (confirmHandsOver w pr now s))"
  unfolding confirmHandsOver_def by (rule confirmWinner_returns)

lemma undoLastDraw_hands_over:
  "winners s \<noteq> [] \<Longrightarrow>
   undoLastDraw s =
     (Some (last (winners s)), updateUI ((notify (undoHandsOver s))\<lparr>state := READY\<rparr>))"
  unfolding undoHandsOver_def by (rule undoLastDraw_nonempty)

lemma confirmHandsOver_fields:
  shows "currentIndex (confirmHandsOver w pr now s) = currentIndex s + 1"
    and "onStateChange (confirmHandsOver w pr now s) = onStateChange s"
    and "winners (confirmHandsOver w pr now s) = winners s @ [winnerEntry w pr now]"
    and "participants (confirmHandsOver w pr now s) = removeFirstById (p_id w) (participants s)"
  by (simp_all add: confirmHandsOver_def)

lemma undoHandsOver_fields:
  shows "currentIndex (undoHandsOver s) = currentIndex s - 1"
    and "onStateChange (undoHandsOver s) = onStateChange s"
  by (simp_all add: undoHandsOver_def)

lemma round_effect:
  assumes "confirmRounds ((w, now) # rest) s = Some s'"
  obtains u pr where "confirmRounds rest (notify u) = Some s'"
    and "confirmHandovers ((w, now) # rest) s = u # confirmHandovers rest (notify u)"
    and "winners (notify u) = winners s @ [winnerEntry w pr now]"
    and "participants (notify u) = removeFirstById (p_id w) (participants s)"
    and "onStateChange (notify u) = onStateChange s"
    and "onStateChange u = onStateChange s"
    and "currentIndex u = currentIndex s + 1"
proof -
  let ?s1 = "onSpinComplete (Some w) s"
  have s1: "?s1 = updateButtons (s\<lparr>pendingWinner := Some w, state := STOPPED\<rparr>)"
    by (rule onSpinComplete_Some)
  have st: "state ?s1 = STOPPED"
    using assms by (cases "state ?s1 = STOPPED") (simp_all add: Let_def)
  have pw: "pendingWinner ?s1 = Some w" by (simp add: s1)
  from assms st obtain s2 where c: "confirmWinner now ?s1 = Returns s2"
    and r: "confirmRounds rest s2 = Some s'"
    by (cases "confirmWinner now ?s1") (simp_all add: Let_def)
  have "getCurrentPrize ?s1 \<noteq> None"
  proof
    assume "getCurrentPrize ?s1 = None"
    with pw st have "confirmWinner now ?s1 = Throws TypeError ?s1" by (rule confirmWinner_throws)
    with c show False by simp
  qed
  then obtain pr where pr: "getCurrentPrize ?s1 = Some pr" by auto
  let ?u = "confirmHandsOver w pr now ?s1"
  from c confirmWinner_hands_over [OF pw st pr, of now] have s2: "s2 = notify ?u" by simp
  have h: "confirmHandovers ((w, now) # rest) s = ?u # confirmHandovers rest (notify ?u)"
    using st pr by (simp add: Let_def)
  have "winners (notify ?u) = winners s @ [winnerEntry w pr now]"
    and "participants (notify ?u) = removeFirstById (p_id w) (participants s)"
    and "onStateChange (notify ?u) = onStateChange s"
    and "onStateChange ?u = onStateChange s"
    and "currentIndex ?u = currentIndex s + 1"
    by (simp_all add: confirmHandsOver_fields s1)
  with r [unfolded s2] h show ?thesis by (rule that)
qed

lemma undo_effect:
  assumes "winners u \<noteq> []"
  shows "winners (snd (undoLastDraw u)) = butlast (winners u)"
    and "participants (snd (undoLastDraw u)) = addById (asParticipant (last (winners u))) (participants u)"
    and "onStateChange (snd (undoLastDraw u)) = onStateChange u"
    and "currentIndex (snd (undoLastDraw u)) = currentIndex (notify (undoHandsOver u))"
    and "undoHandovers (Suc 0) u = [undoHandsOver u]"
proof -
  show "winners (snd (undoLastDraw u)) = butlast (winners u)"
    and "participants (snd (undoLastDraw u)) = addById (asParticipant (last (winners u))) (participants u)"
    and "onStateChange (snd (undoLastDraw u)) = onStateChange u"
    by (simp_all add: undoLastDraw_nonempty [OF assms])
  show "currentIndex (snd (undoLastDraw u)) = currentIndex (notify (undoHandsOver u))"
    by (simp add: undoLastDraw_hands_over [OF assms])
  show "undoHandovers (Suc 0) u = [undoHandsOver u]"
    using assms by simp
qed

lemma undos_Suc_outer: "undos (Suc n) s = snd (undoLastDraw (undos n s))"
  by (induction n arbitrary: s) simp_all

lemma undoHandovers_Suc_outer:
  "undoHandovers (Suc n) s = undoHandovers n s @ undoHandovers (Suc 0) (undos n s)"
  by (induction n arbitrary: s) simp_all

lemma handovers_split:
  assumes "\<forall>x\<in>set ((a # C) @ (U @ [b])). P x"
  shows "P a" and "\<forall>x\<in>set (C @ U). P x" and "P b"
  using assms by simp_all

lemma round_trip:
  assumes "confirmRounds wts s = Some s'"
    and "distinct (map p_id (participants s))"
    and "distinct (map fst wts)"
    and "fst ` set wts \<subseteq> set (participants s)"
  shows "winners (undos (length wts) s') = winners s
    \<and> set (participants (undos (length wts) s')) = set (participants s)
    \<and> onStateChange (undos (length wts) s') = onStateChange s
    \<and> (onStateChange s = None
        \<or> (\<forall>u\<in>set (confirmHandovers wts s @ undoHandovers (length wts) s').
              currentIndex (notify u) = currentIndex u)
       \<longrightarrow> currentIndex (undos (length wts) s') = currentIndex s)"
  using assms
proof (induction wts arbitrary: s)
  case Nil
  then show ?case by simp
next
  case (Cons wt rest)
  obtain w now where wt: "wt = (w, now)" by (cases wt)
  from Cons.prems(1) obtain uc pr where r: "confirmRounds rest (notify uc) = Some s'"
    and h: "confirmHandovers ((w, now) # rest) s = uc # confirmHandovers rest (notify uc)"
    and ws: "winners (notify uc) = winners s @ [winnerEntry w pr now]"
    and ps: "participants (notify uc) = removeFirstById (p_id w) (participants s)"
    and cb: "onStateChange (notify uc) = onStateChange s"
    and cbu: "onStateChange uc = onStateChange s"
    and ix: "currentIndex uc = currentIndex s + 1"
    unfolding wt by (rule round_effect)
  let ?s2 = "notify uc"
  have w_in: "w \<in> set (participants s)" using Cons.prems(4) wt by simp
  have set2: "set (participants ?s2) = set (participants s) - {w}"
    unfolding ps using Cons.prems(2) w_in by (rule set_removeFirstById)
  have d2: "distinct (map p_id (participants ?s2))"
    unfolding ps using Cons.prems(2) by (rule distinct_removeFirstById)
  have dr: "distinct (map fst rest)" using Cons.prems(3) by simp
  have "w \<notin> fst ` set rest" using Cons.prems(3) wt by simp
  then have sub: "fst ` set rest \<subseteq> set (participants ?s2)"
    using Cons.prems(4) set2 by auto
  let ?n = "length rest"
  let ?u = "undos ?n s'"
  note IH = Cons.IH [OF r d2 dr sub]
  have u_w: "winners ?u = winners s @ [winnerEntry w pr now]"
    using IH [THEN conjunct1] unfolding ws .
  have u_p: "set (participants ?u) = set (participants s) - {w}"
    using IH [THEN conjunct2, THEN conjunct1] unfolding set2 .
  have u_c: "onStateChange ?u = onStateChange s"
    using IH [THEN conjunct2, THEN conjunct2, THEN conjunct1] unfolding cb .
  note u_i = IH [THEN conjunct2, THEN conjunct2, THEN conjunct2]
  have ne: "winners ?u \<noteq> []" by (simp add: u_w)
  have last_u: "asParticipant (last (winners ?u)) = w" by (simp add: u_w)
  have absent: "p_id w \<notin> p_id ` set (participants ?u)"
    unfolding u_p using Cons.prems(2) w_in by (rule id_gone)
  have eq: "undos (length (wt # rest)) s' = snd (undoLastDraw ?u)"
    using undos_Suc_outer [of ?n s'] by simp
  have hs: "confirmHandovers (wt # rest) s @ undoHandovers (length (wt # rest)) s'
      = (uc # confirmHandovers rest ?s2) @ (undoHandovers ?n s' @ [undoHandsOver ?u])"
    unfolding wt h length_Cons undoHandovers_Suc_outer [of ?n s'] undo_effect(5) [OF ne] ..
  have "winners (snd (undoLastDraw ?u)) = winners s"
    by (simp add: undo_effect(1) [OF ne] u_w)
  moreover have "set (participants (snd (undoLastDraw ?u))) = set (participants s)"
    using absent w_in by (auto simp: undo_effect(2) [OF ne] last_u addById_def u_p)
  moreover have "onStateChange (snd (undoLastDraw ?u)) = onStateChange s"
    by (simp add: undo_effect(3) [OF ne] u_c)
  moreover have "onStateChange s = None
        \<or> (\<forall>u\<in>set (confirmHandovers (wt # rest) s @ undoHandovers (length (wt # rest)) s').
              currentIndex (notify u) = currentIndex u)
       \<longrightarrow> currentIndex (snd (undoLastDraw ?u)) = currentIndex s"
  proof
    assume k: "onStateChange s = None
        \<or> (\<forall>u\<in>set (confirmHandovers (wt # rest) s @ undoHandovers (length (wt # rest)) s').
              currentIndex (notify u) = currentIndex u)"
    have k_c: "currentIndex (notify uc) = currentIndex uc"
      and k_r: "onStateChange ?s2 = None
        \<or> (\<forall>u\<in>set (confirmHandovers rest ?s2 @ undoHandovers ?n s').
              currentIndex (notify u) = currentIndex u)"
      and k_u: "currentIndex (notify (undoHandsOver ?u)) = currentIndex (undoHandsOver ?u)"
    proof -
      from k show "currentIndex (notify uc) = currentIndex uc"
      proof
        assume "onStateChange s = None"
        then have "onStateChange uc = None" by (simp only: cbu)
        then show ?thesis by simp
      next
        assume "\<forall>u\<in>set (confirmHandovers (wt # rest) s @ undoHandovers (length (wt # rest)) s').
              currentIndex (notify u) = currentIndex u"
        then show ?thesis unfolding hs by (rule handovers_split(1))
      qed
      from k show "onStateChange ?s2 = None
        \<or> (\<forall>u\<in>set (confirmHandovers rest ?s2 @ undoHandovers ?n s').
              currentIndex (notify u) = currentIndex u)"
      proof
        assume "onStateChange s = None"
        then have "onStateChange ?s2 = None" by (simp only: cb)
        then show ?thesis ..
      next
        assume "\<forall>u\<in>set (confirmHandovers (wt # rest) s @ undoHandovers (length (wt # rest)) s').
              currentIndex (notify u) = currentIndex u"
        then have "\<forall>u\<in>set (confirmHandovers rest ?s2 @ undoHandovers ?n s').
              currentIndex (notify u) = currentIndex u"
          unfolding hs by (rule handovers_split(2))
        then show ?thesis ..
      qed
      from k show "currentIndex (notify (undoHandsOver ?u)) = currentIndex (undoHandsOver ?u)"
      proof
        assume "onStateChange s = None"
        then have "onStateChange (undoHandsOver ?u) = None"
          by (simp only: undoHandsOver_fields(2) u_c)
        then show ?thesis by simp
      next
        assume "\<forall>u\<in>set (confirmHandovers (wt # rest) s @ undoHandovers (length (wt # rest)) s').
              currentIndex (notify u) = currentIndex u"
        then show ?thesis unfolding hs by (rule handovers_split(3))
      qed
    qed
    have "currentIndex ?u = currentIndex ?s2" using u_i k_r ..
    then have cu: "currentIndex ?u = currentIndex s + 1" by (simp only: k_c ix)
    have "currentIndex (snd (undoLastDraw ?u)) = currentIndex (notify (undoHandsOver ?u))"
      by (rule undo_effect(4) [OF ne])
    also note k_u
    also have "currentIndex (undoHandsOver ?u) = currentIndex s"
      by (simp add: undoHandsOver_fields(1) cu)
    finally show "currentIndex (snd (undoLastDraw ?u)) = currentIndex s" .
  qed
  ultimately show ?case unfolding eq by (intro conjI)
qed

text \<open>
  Claim C1 says that a confirmation followed by an undo restores ledger, pool and cursor in
  every reachable state. In the application the confirmation ends by notifying the
  listener, which selects another prize when the current one is exhausted: with the grand
  prize selected by hand (cursor \<open>2\<close>, the last slot) and a winner reported, the
  confirmation hands the listener the cursor at \<open>3\<close>, the listener moves it to \<open>0\<close>, the
  first slot of the other tier, and the undo cannot move it back; ledger and pool are
  restored, the cursor is not.
\<close>

theorem confirm_undo_cursor_counterexample:
  "state manualPending = STOPPED \<and> pendingWinner manualPending = Some pA
   \<and> currentIndex manualPending = 2 \<and> winners manualPending = []
   \<and> set (participants manualPending) = {pA, pB}
   \<and> length (winners (run [ConfirmWinner 5] manualPending)) = 1
   \<and> winners (run [ConfirmWinner 5, UndoLastDraw] manualPending) = []
   \<and> set (participants (run [ConfirmWinner 5, UndoLastDraw] manualPending)) = {pA, pB}
   \<and> currentIndex (run [ConfirmWinner 5, UndoLastDraw] manualPending) = 0
   \<and> map_option (\<lambda>s'. currentIndex (undos 1 s')) (confirmRounds [(pA, 5)] manualPending) = Some 0
   \<and> map (\<lambda>u. (currentIndex u, currentIndex (notify u)))
        (confirmHandovers [(pA, 5)] manualPending) = [(3, 0)]"
  by code_simp

text \<open>
  Claim C1, amended. From a state whose pool has distinct ids, let \<open>N\<close> confirmations be
  performed, each of a reported winner in phase \<^verbatim>\<open>STOPPED\<close> with \<^verbatim>\<open>confirmWinner\<close>
  returning, the winners being \<open>N\<close> different members of the pool; \<open>N\<close> undos then restore
  the ledger exactly and the pool as a set, whatever listener is installed. They restore
  the cursor exactly when no listener is installed, and also, with the application's
  listener installed, whenever the listener leaves the cursor where it is at each of the
  \<open>2N\<close> notifications of the sequence.
\<close>

theorem confirm_undo_round_trip:
  "confirmRounds wts s = Some s' \<and> distinct (map p_id (participants s))
     \<and> distinct (map fst wts) \<and> fst ` set wts \<subseteq> set (participants s)
   \<longrightarrow> winners (undos (length wts) s') = winners s
       \<and> set (participants (undos (length wts) s')) = set (participants s)
       \<and> (onStateChange s = None \<longrightarrow> currentIndex (undos (length wts) s') = currentIndex s)
       \<and> ((\<forall>u\<in>set (confirmHandovers wts s @ undoHandovers (length wts) s').
              currentIndex (notify u) = currentIndex u)
            \<longrightarrow> currentIndex (undos (length wts) s') = currentIndex s)"
proof
  assume a: "confirmRounds wts s = Some s' \<and> distinct (map p_id (participants s))
     \<and> distinct (map fst wts) \<and> fst ` set wts \<subseteq> set (participants s)"
  note t = round_trip [OF a [THEN conjunct1] a [THEN conjunct2, THEN conjunct1]
      a [THEN conjunct2, THEN conjunct2, THEN conjunct1]
      a [THEN conjunct2, THEN conjunct2, THEN conjunct2]]
  note c = t [THEN conjunct2, THEN conjunct2, THEN conjunct2]
  have "winners (undos (length wts) s') = winners s" by (rule t [THEN conjunct1])
  moreover have "set (participants (undos (length wts) s')) = set (participants s)"
    by (rule t [THEN conjunct2, THEN conjunct1])
  moreover have "onStateChange s = None \<longrightarrow> currentIndex (undos (length wts) s') = currentIndex s"
  proof
    assume "onStateChange s = None"
    then have "onStateChange s = None
        \<or> (\<forall>u\<in>set (confirmHandovers wts s @ undoHandovers (length wts) s').
              currentIndex (notify u) = currentIndex u)" ..
    with c show "currentIndex (undos (length wts) s') = currentIndex s" ..
  qed
  moreover have "(\<forall>u\<in>set (confirmHandovers wts s @ undoHandovers (length wts) s').
              currentIndex (notify u) = currentIndex u)
            \<longrightarrow> currentIndex (undos (length wts) s') = currentIndex s"
  proof
    assume "\<forall>u\<in>set (confirmHandovers wts s @ undoHandovers (length wts) s').
              currentIndex (notify u) = currentIndex u"
    then have "onStateChange s = None
        \<or> (\<forall>u\<in>set (confirmHandovers wts s @ undoHandovers (length wts) s').
              currentIndex (notify u) = currentIndex u)" ..
    with c show "currentIndex (undos (length wts) s') = currentIndex s" ..
  qed
  ultimately show "winners (undos (length wts) s') = winners s
       \<and> set (participants (undos (length wts) s')) = set (participants s)
       \<and> (onStateChange s = None \<longrightarrow> currentIndex (undos (length wts) s') = currentIndex s)
       \<and> ((\<forall>u\<in>set (confirmHandovers wts s @ undoHandovers (length wts) s').
              currentIndex (notify u) = currentIndex u)
            \<longrightarrow> currentIndex (undos (length wts) s') = currentIndex s)"
    by (intro conjI)
qed

theorem confirm_undo_round_trip_witness:
  "onStateChange appABC = Some AutoSave
   \<and> map_option (\<lambda>s'. (winners (undos 3 s'), set (participants (undos 3 s')), currentIndex (undos 3 s')))
       (confirmRounds [(pA, 1), (pB, 2), (pC, 3)] appABC) = Some ([], {pA, pB, pC}, 0)
   \<and> onStateChange bareABC = None
   \<and> map_option (\<lambda>s'. (winners (undos 2 s'), set (participants (undos 2 s')), currentIndex (undos 2 s')))
       (confirmRounds [(pB, 1), (pA, 2)] bareABC) = Some ([], {pA, pB, pC}, 0)"
proof (intro conjI)
  show "onStateChange appABC = Some AutoSave" by code_simp
  show "onStateChange bareABC = None" by code_simp
  show "map_option (\<lambda>s'. (winners (undos 3 s'), set (participants (undos 3 s')), currentIndex (undos 3 s')))
       (confirmRounds [(pA, 1), (pB, 2), (pC, 3)] appABC) = Some ([], {pA, pB, pC}, 0)"
  proof -
    have "confirmRounds [(pA, 1), (pB, 2), (pC, 3)] appABC \<noteq> None" by code_simp
    then obtain s' where s': "confirmRounds [(pA, 1), (pB, 2), (pC, 3)] appABC = Some s'" by auto
    have h: "distinct (map p_id (participants appABC))"
      "distinct (map fst [(pA, 1::nat), (pB, 2), (pC, 3)])"
      "fst ` set [(pA, 1::nat), (pB, 2), (pC, 3)] \<subseteq> set (participants appABC)"
      by code_simp+
    have "\<forall>u\<in>set (confirmHandovers [(pA, 1), (pB, 2), (pC, 3)] appABC
              @ undoHandovers (length [(pA, 1::nat), (pB, 2), (pC, 3)])
                  (the (confirmRounds [(pA, 1), (pB, 2), (pC, 3)] appABC))).
            currentIndex (notify u) = currentIndex u"
      by code_simp
    then have k: "\<forall>u\<in>set (confirmHandovers [(pA, 1), (pB, 2), (pC, 3)] appABC
              @ undoHandovers (length [(pA, 1::nat), (pB, 2), (pC, 3)]) s').
            currentIndex (notify u) = currentIndex u"
      unfolding s' option.sel .
    have v: "winners appABC = []" "set (participants appABC) = {pA, pB, pC}"
      "currentIndex appABC = 0"
      by code_simp+
    note t = confirm_undo_round_trip [of "[(pA, 1), (pB, 2), (pC, 3)]" appABC s', THEN mp,
        OF conjI [OF s' conjI [OF h(1) conjI [OF h(2) h(3)]]]]
    have n: "length [(pA, 1::nat), (pB, 2), (pC, 3)] = 3" by simp
    have "winners (undos 3 s') = []"
      using t [THEN conjunct1] unfolding n v .
    moreover have "set (participants (undos 3 s')) = {pA, pB, pC}"
      using t [THEN conjunct2, THEN conjunct1] unfolding n v .
    moreover have "currentIndex (undos 3 s') = 0"
      using t [THEN conjunct2, THEN conjunct2, THEN conjunct2, THEN mp, OF k] unfolding n v .
    ultimately show ?thesis unfolding s' by simp
  qed
  show "map_option (\<lambda>s'. (winners (undos 2 s'), set (participants (undos 2 s')), currentIndex (undos 2 s')))
       (confirmRounds [(pB, 1), (pA, 2)] bareABC) = Some ([], {pA, pB, pC}, 0)"
  proof -
    have "confirmRounds [(pB, 1), (pA, 2)] bareABC \<noteq> None" by code_simp
    then obtain s' where s': "confirmRounds [(pB, 1), (pA, 2)] bareABC = Some s'" by auto
    have h: "distinct (map p_id (participants bareABC))"
      "distinct (map fst [(pB, 1::nat), (pA, 2)])"
      "fst ` set [(pB, 1::nat), (pA, 2)] \<subseteq> set (participants bareABC)"
      by code_simp+
    have k: "onStateChange bareABC = None" by code_simp
    have v: "winners bareABC = []" "set (participants bareABC) = {pA, pB, pC}"
      "currentIndex bareABC = 0"
      by code_simp+
    note t = confirm_undo_round_trip [of "[(pB, 1), (pA, 2)]" bareABC s', THEN mp,
        OF conjI [OF s' conjI [OF h(1) conjI [OF h(2) h(3)]]]]
    have n: "length [(pB, 1::nat), (pA, 2)] = 2" by simp
    have "winners (undos 2 s') = []"
      using t [THEN conjunct1] unfolding n v .
    moreover have "set (participants (undos 2 s')) = {pA, pB, pC}"
      using t [THEN conjunct2, THEN conjunct1] unfolding n v .
    moreover have "currentIndex (undos 2 s') = 0"
      using t [THEN conjunct2, THEN conjunct2, THEN conjunct1, THEN mp, OF k] unfolding n v .
    ultimately show ?thesis unfolding s' by simp
  qed
qed

section \<open>Where the cursor ends up\<close>

text \<open>
  Claim C4. Manual selection is meant to land on a slot of the tier that has not been
  awarded. \<^verbatim>\<open>selectPrize\<close> jumps to the slot whose rank within the tier is the number of the
  tier's ledger entries plus one, which is an unawarded slot only when the awarded slots
  are the first ones. After a draw, a manual selection, an undo and a second draw, the
  ledger holds instance \<open>2\<close> of tier \<open>2\<close> and instance \<open>1\<close> is free; selecting tier \<open>2\<close> puts
  the cursor on instance \<open>2\<close>, the slot the ledger entry holds. The same happens after the
  winner of instance \<open>1\<close> was removed by id.
\<close>

theorem selectPrize_lands_on_awarded_slot:
  "map (\<lambda>e. (prize_id e, instance_no e)) (prizeQueue outOfOrder) = [(2, 1), (2, 2), (1, 1)]
   \<and> map (\<lambda>w. (p_id w, prize_id (prize w), instance_no (prize w))) (winners outOfOrder) = [(''B'', 2, 2)]
   \<and> state outOfOrder = READY
   \<and> currentIndex (selectPrize 2 outOfOrder) = 1
   \<and> map prize (winners outOfOrder) = [prizeQueue outOfOrder ! currentIndex (selectPrize 2 outOfOrder)]
   \<and> map (\<lambda>w. (p_id w, prize_id (prize w), instance_no (prize w))) (winners vacated) = [(''B'', 2, 2)]
   \<and> currentIndex (selectPrize 2 vacated) = 1
   \<and> map prize (winners vacated) = [prizeQueue vacated ! currentIndex (selectPrize 2 vacated)]"
  by code_simp

text \<open>
  Claim C8. Whenever \<^verbatim>\<open>confirmWinner\<close> passes its guard the cursor should be at a queue
  entry. With the tiers \<open>(2, 1, 2)\<close> by id, each of quantity \<open>1\<close>, which the import accepts,
  two draws leave the application with two ledger entries out of three, the cursor at the
  end of the queue and no tier that the listener could select; the third spin is legal,
  its winner is reported, the guard passes, the current prize is \<^verbatim>\<open>null\<close> and
  \<^verbatim>\<open>addWinner\<close> throws. A draw manager without listener gets there with distinct tier
  ids: a draw, the removal of its winner, a second draw, a third winner reported.
\<close>

theorem confirmWinner_reaches_null_prize:
  "list_all validPrize [tierA, tierB, tierC]
   \<and> map prize_id (prizeQueue sharedIdThirdPending) = [2, 2, 1]
   \<and> length (winners sharedIdThirdPending) = 2
   \<and> state sharedIdThirdPending = STOPPED
   \<and> pendingWinner sharedIdThirdPending = Some pC
   \<and> currentIndex sharedIdThirdPending = 3
   \<and> getCurrentPrize sharedIdThirdPending = None
   \<and> confirmWinner 3 sharedIdThirdPending = Throws TypeError sharedIdThirdPending
   \<and> length (prizeQueue bareThirdPending) = 2
   \<and> length (winners bareThirdPending) = 1
   \<and> state bareThirdPending = STOPPED
   \<and> pendingWinner bareThirdPending = Some pC
   \<and> getCurrentPrize bareThirdPending = None
   \<and> confirmWinner 3 bareThirdPending = Throws TypeError bareThirdPending"
  by code_simp

end
